theory Spec2Isabelle
  imports Complex_Main
begin

section \<open>JavaScript strings\<close>

text \<open>
  A JavaScript string is a sequence of UTF-16 code units. A code unit is modelled by
  its numeric value, so that the non-ASCII entries of the program's tables (U+00E1,
  U+014D, U+3000, ...) are single elements, as they are for \<open>length\<close>, \<open>charAt\<close>
  and the regular expressions of the source.
\<close>

type_synonym jschar = nat
type_synonym jsstring = "nat list"

definition js :: "string \<Rightarrow> jsstring" where
  "js s = map of_char s"

definition in_range :: "nat \<Rightarrow> nat \<Rightarrow> jschar \<Rightarrow> bool" where
  "in_range lo hi c = (lo \<le> c \<and> c \<le> hi)"

text \<open>
  \<open>String.prototype.toLowerCase\<close>, written out for Basic Latin, Latin-1 Supplement and
  Latin Extended-A (U+0000 to U+017F), which hold every character the program's tables
  and patterns mention. U+0130 lower-cases to two code units. Code units above U+017F
  are left as they are.
\<close>

definition lower_unit :: "jschar \<Rightarrow> jsstring" where
  "lower_unit c =
     (if in_range 0x41 0x5A c then [c + 32]
      else if in_range 0xC0 0xDE c \<and> c \<noteq> 0xD7 then [c + 32]
      else if c = 0x130 then [0x69, 0x307]
      else if c = 0x178 then [0xFF]
      else if (in_range 0x100 0x137 c \<or> in_range 0x14A 0x177 c) \<and> even c then [c + 1]
      else if (in_range 0x139 0x148 c \<or> in_range 0x179 0x17E c) \<and> odd c then [c + 1]
      else [c])"

definition toLowerCase :: "jsstring \<Rightarrow> jsstring" where
  "toLowerCase s = concat (map lower_unit s)"

text \<open>ECMAScript WhiteSpace and LineTerminator: what \<open>trim\<close> strips and \<open>\s\<close> matches.\<close>

definition is_space :: "jschar \<Rightarrow> bool" where
  "is_space c =
     (in_range 9 13 c \<or> c = 0x20 \<or> c = 0xA0 \<or> c = 0x1680 \<or> in_range 0x2000 0x200A c \<or>
      c = 0x2028 \<or> c = 0x2029 \<or> c = 0x202F \<or> c = 0x205F \<or> c = 0x3000 \<or> c = 0xFEFF)"

definition is_digit :: "jschar \<Rightarrow> bool" where
  "is_digit c = in_range 0x30 0x39 c"

definition is_word :: "jschar \<Rightarrow> bool" where
  "is_word c = (in_range 0x41 0x5A c \<or> in_range 0x61 0x7A c \<or> is_digit c \<or> c = 0x5F)"

definition is_hex :: "jschar \<Rightarrow> bool" where
  "is_hex c = (in_range 0x61 0x66 c \<or> in_range 0x41 0x46 c \<or> is_digit c)"

definition trim :: "jsstring \<Rightarrow> jsstring" where
  "trim s = rev (dropWhile is_space (rev (dropWhile is_space s)))"

definition startsWith :: "jsstring \<Rightarrow> jsstring \<Rightarrow> bool" where
  "startsWith s p = (take (length p) s = p)"

definition endsWith :: "jsstring \<Rightarrow> jsstring \<Rightarrow> bool" where
  "endsWith s p = (length p \<le> length s \<and> drop (length s - length p) s = p)"

fun includes_js :: "jsstring \<Rightarrow> jsstring \<Rightarrow> bool" where
  "includes_js [] sub = (sub = [])"
| "includes_js (c # cs) sub = (startsWith (c # cs) sub \<or> includes_js cs sub)"

text \<open>
  \<open>parseInt\<close> on the decimal digits a string starts with (\<open>None\<close> is NaN). Every call
  of the source passes a capture of \<open>\d+\<close> or \<open>\d{m,n}\<close>, so sign, leading white space
  and the hexadecimal prefix are left out.
\<close>

definition parseInt :: "jsstring \<Rightarrow> int option" where
  "parseInt s =
     (let ds = takeWhile is_digit s
      in if ds = [] then None else Some (foldl (\<lambda>n c. 10 * n + (int c - 0x30)) 0 ds))"

section \<open>Regular expressions\<close>

text \<open>
  The patterns of the source are sequences of character classes under a greedy bounded
  repetition, assertions, capture-group brackets and alternations of such sequences. The
  matcher is the backtracking one of ECMAScript: a repetition tries the longest run
  first, an alternation its branches from left to right, and the first way through the
  whole pattern wins.
\<close>

datatype item =
    Cls "jschar \<Rightarrow> bool" nat "nat option"
  | WordB
  | Bol
  | Eol
  | Open
  | Close

datatype atom = It item | Alt "item list list"

record mstate =
  prior :: "jschar option"
  remaining :: jsstring
  consumed :: nat
  cur :: "jsstring option"
  caps :: "jsstring list"

definition init_state :: "jschar option \<Rightarrow> jsstring \<Rightarrow> mstate" where
  "init_state p s = \<lparr>prior = p, remaining = s, consumed = 0, cur = None, caps = []\<rparr>"

definition advance :: "nat \<Rightarrow> mstate \<Rightarrow> mstate" where
  "advance n st =
     (let taken = take n (remaining st)
      in st\<lparr>prior := (if taken = [] then prior st else Some (last taken)),
            remaining := drop n (remaining st),
            consumed := consumed st + n,
            cur := map_option (\<lambda>acc. acc @ taken) (cur st)\<rparr>)"

definition run_length :: "(jschar \<Rightarrow> bool) \<Rightarrow> nat option \<Rightarrow> jsstring \<Rightarrow> nat" where
  "run_length p hi s =
     (let k = length (takeWhile p s) in case hi of None \<Rightarrow> k | Some h \<Rightarrow> min h k)"

definition at_boundary :: "mstate \<Rightarrow> bool" where
  "at_boundary st =
     ((case prior st of None \<Rightarrow> False | Some c \<Rightarrow> is_word c) \<noteq>
      (case remaining st of [] \<Rightarrow> False | c # _ \<Rightarrow> is_word c))"

fun first_some :: "('a \<Rightarrow> 'b option) \<Rightarrow> 'a list \<Rightarrow> 'b option" where
  "first_some f [] = None"
| "first_some f (x # xs) = (case f x of Some y \<Rightarrow> Some y | None \<Rightarrow> first_some f xs)"

lemma first_some_cong [fundef_cong]:
  "xs = ys \<Longrightarrow> (\<And>x. x \<in> set ys \<Longrightarrow> f x = g x) \<Longrightarrow> first_some f xs = first_some g ys"
  by (induction ys arbitrary: xs) (auto split: option.splits)

fun weight :: "atom \<Rightarrow> nat" where
  "weight (It _) = 1"
| "weight (Alt alts) = Suc (sum_list (map length alts))"

lemma first_some_weak_cong [cong]: "xs = ys \<Longrightarrow> first_some f xs = first_some f ys"
  by simp

function run :: "atom list \<Rightarrow> mstate \<Rightarrow> mstate option" where
  "run [] st = Some st"
| "run (It (Cls p lo hi) # as) st =
     first_some (\<lambda>n. run as (advance n st)) (rev [lo..<Suc (run_length p hi (remaining st))])"
| "run (It WordB # as) st = (if at_boundary st then run as st else None)"
| "run (It Bol # as) st = (if prior st = None then run as st else None)"
| "run (It Eol # as) st = (if remaining st = [] then run as st else None)"
| "run (It Open # as) st = run as (st\<lparr>cur := Some []\<rparr>)"
| "run (It Close # as) st =
     run as (st\<lparr>caps := caps st @ [case cur st of None \<Rightarrow> [] | Some acc \<Rightarrow> acc], cur := None\<rparr>)"
| "run (Alt alts # as) st = first_some (\<lambda>a. run (map It a @ as) st) alts"
  by pat_completeness auto
termination
proof (relation "measure (\<lambda>(as, st). sum_list (map weight as))")
  fix alts :: "item list list" and as :: "atom list" and st :: mstate and a :: "item list"
  assume "a \<in> set alts"
  then have "length a \<le> sum_list (map length alts)"
    by (simp add: member_le_sum_list)
  moreover have "sum_list (map weight (map It a)) = length a"
    by (induction a) simp_all
  ultimately show "((map It a @ as, st), (Alt alts # as, st))
      \<in> measure (\<lambda>(as, st). sum_list (map weight as))"
    by simp
qed simp_all

text \<open>
  \<open>RegExp.prototype.exec\<close> without the global flag: the first start position, from the
  left, at which the pattern matches; the matched text and the captures.
\<close>

fun scan :: "atom list \<Rightarrow> jschar option \<Rightarrow> jsstring \<Rightarrow> (jsstring \<times> jsstring list) option" where
  "scan as p [] =
     (case run as (init_state p []) of None \<Rightarrow> None | Some st \<Rightarrow> Some ([], caps st))"
| "scan as p (c # cs) =
     (case run as (init_state p (c # cs)) of
        None \<Rightarrow> scan as (Some c) cs
      | Some st \<Rightarrow> Some (take (consumed st) (c # cs), caps st))"

definition exec :: "atom list \<Rightarrow> jsstring \<Rightarrow> (jsstring \<times> jsstring list) option" where
  "exec as s = scan as None s"

definition test :: "atom list \<Rightarrow> jsstring \<Rightarrow> bool" where
  "test as s = (exec as s \<noteq> None)"

text \<open>
  With the global flag the search resumes where the last match ended, one code unit
  further after an empty match; \<open>skip\<close> counts the code units of the last match still to
  pass. \<open>match_all\<close> is \<open>String.prototype.match\<close> (the matched texts; the empty list
  stands for \<open>null\<close>), \<open>replace_all\<close> is \<open>String.prototype.replace\<close>, \<open>split\<close> is
  \<open>String.prototype.split\<close>.
\<close>

fun gmatch :: "atom list \<Rightarrow> jschar option \<Rightarrow> nat \<Rightarrow> jsstring \<Rightarrow> jsstring list" where
  "gmatch as p skip [] =
     (if 0 < skip then []
      else case run as (init_state p []) of None \<Rightarrow> [] | Some st \<Rightarrow> [[]])"
| "gmatch as p skip (c # cs) =
     (if 0 < skip then gmatch as (Some c) (skip - 1) cs
      else case run as (init_state p (c # cs)) of
             None \<Rightarrow> gmatch as (Some c) 0 cs
           | Some st \<Rightarrow> take (consumed st) (c # cs) # gmatch as (Some c) (consumed st - 1) cs)"

definition match_all :: "atom list \<Rightarrow> jsstring \<Rightarrow> jsstring list" where
  "match_all as s = gmatch as None 0 s"

datatype rpart = Lit jsstring | Ref nat

definition expand :: "rpart list \<Rightarrow> jsstring list \<Rightarrow> jsstring" where
  "expand tmpl cs =
     concat (map (\<lambda>r. case r of
                        Lit s \<Rightarrow> s
                      | Ref n \<Rightarrow> (if 0 < n \<and> n \<le> length cs then cs ! (n - 1)
                                  else [0x24, 0x30 + n])) tmpl)"

fun greplace :: "atom list \<Rightarrow> rpart list \<Rightarrow> jschar option \<Rightarrow> nat \<Rightarrow> jsstring \<Rightarrow> jsstring" where
  "greplace as t p skip [] =
     (if 0 < skip then []
      else case run as (init_state p []) of None \<Rightarrow> [] | Some st \<Rightarrow> expand t (caps st))"
| "greplace as t p skip (c # cs) =
     (if 0 < skip then greplace as t (Some c) (skip - 1) cs
      else case run as (init_state p (c # cs)) of
             None \<Rightarrow> c # greplace as t (Some c) 0 cs
           | Some st \<Rightarrow>
               expand t (caps st) @
               (if consumed st = 0 then c # greplace as t (Some c) 0 cs
                else greplace as t (Some c) (consumed st - 1) cs))"

definition replace_all :: "atom list \<Rightarrow> rpart list \<Rightarrow> jsstring \<Rightarrow> jsstring" where
  "replace_all as t s = greplace as t None 0 s"

fun gsplit :: "atom list \<Rightarrow> jschar option \<Rightarrow> nat \<Rightarrow> jsstring \<Rightarrow> jsstring \<Rightarrow> jsstring list" where
  "gsplit as p skip acc [] = [acc]"
| "gsplit as p skip acc (c # cs) =
     (if 0 < skip then gsplit as (Some c) (skip - 1) [] cs
      else case run as (init_state p (c # cs)) of
             None \<Rightarrow> gsplit as (Some c) 0 (acc @ [c]) cs
           | Some st \<Rightarrow>
               (if consumed st = 0
                then (if acc = [] then gsplit as (Some c) 0 [c] cs
                      else acc # gsplit as (Some c) 0 [c] cs)
                else acc # gsplit as (Some c) (consumed st - 1) [] cs))"

definition split_js :: "atom list \<Rightarrow> jsstring \<Rightarrow> jsstring list" where
  "split_js as s =
     (if s = [] then (case run as (init_state None []) of None \<Rightarrow> [[]] | Some st \<Rightarrow> [])
      else gsplit as None 0 [] s)"

text \<open>
  Canonicalize of ECMAScript (ignore-case matching without the unicode flag): the
  upper-case form of a single code unit, written out for Basic Latin and Latin-1
  Supplement. No code unit outside that range canonicalizes to the canonical form of a
  character of the source's patterns, since a non-ASCII unit never canonicalizes to an
  ASCII one.
\<close>

definition canonicalize :: "jschar \<Rightarrow> jschar" where
  "canonicalize c =
     (if in_range 0x61 0x7A c then c - 32
      else if in_range 0xE0 0xFE c \<and> c \<noteq> 0xF7 then c - 32
      else if c = 0xFF then 0x178
      else if c = 0xB5 then 0x39C
      else c)"

definition eqc :: "jschar \<Rightarrow> jschar \<Rightarrow> bool" where
  "eqc c x = (x = c)"

definition eqi :: "jschar \<Rightarrow> jschar \<Rightarrow> bool" where
  "eqi c x = (canonicalize x = canonicalize c)"

definition any_of :: "jschar list \<Rightarrow> jschar \<Rightarrow> bool" where
  "any_of cs x = (x \<in> set cs)"

definition none_of :: "jschar list \<Rightarrow> jschar \<Rightarrow> bool" where
  "none_of cs x = (x \<notin> set cs)"

definition single :: "(jschar \<Rightarrow> bool) \<Rightarrow> item" where
  "single p = Cls p 1 (Some 1)"

definition ch :: "jschar \<Rightarrow> item" where
  "ch c = single (eqc c)"

definition chi :: "jschar \<Rightarrow> item" where
  "chi c = single (eqi c)"

definition str :: "string \<Rightarrow> item list" where
  "str s = map (\<lambda>c. ch (of_char c)) s"

definition stri :: "string \<Rightarrow> item list" where
  "stri s = map (\<lambda>c. chi (of_char c)) s"

definition seq :: "item list \<Rightarrow> atom list" where
  "seq is = map It is"

definition plus_of :: "(jschar \<Rightarrow> bool) \<Rightarrow> item" where
  "plus_of p = Cls p 1 None"

definition star_of :: "(jschar \<Rightarrow> bool) \<Rightarrow> item" where
  "star_of p = Cls p 0 None"

definition capture :: "nat \<Rightarrow> (jsstring \<times> jsstring list) \<Rightarrow> jsstring option" where
  "capture n m = (if 0 < n \<and> n \<le> length (snd m) then Some (snd m ! (n - 1)) else None)"

section \<open>Configuration and patterns\<close>

definition MAX_EPISODE_NUMBER :: int where "MAX_EPISODE_NUMBER = 9999"
definition MIN_EPISODE_NUMBER :: int where "MIN_EPISODE_NUMBER = 1"
definition MAX_YEAR :: int where "MAX_YEAR = 2000"
definition COMMON_RESOLUTIONS :: "int list" where "COMMON_RESOLUTIONS = [480, 720, 1080]"
definition MAX_BATCH_EPISODES :: int where "MAX_BATCH_EPISODES = 999"

definition CACHE_TTL_MS :: int where "CACHE_TTL_MS = 5 * 60 * 1000"
definition MAX_CACHE_SIZE :: nat where "MAX_CACHE_SIZE = 100"

text \<open>\<open>/btih:([a-fA-F0-9]{40})/i\<close>\<close>
definition INFO_HASH :: "atom list" where
  "INFO_HASH = seq (stri ''btih:'' @ [Open, Cls is_hex 40 (Some 40), Close])"

text \<open>\<open>/^[a-fA-F0-9]{40}$/\<close>\<close>
definition VALID_INFO_HASH :: "atom list" where
  "VALID_INFO_HASH = seq [Bol, Cls is_hex 40 (Some 40), Eol]"

text \<open>\<open>/\b(\d{3,4}p)\b/i\<close>\<close>
definition RESOLUTION :: "atom list" where
  "RESOLUTION = seq [WordB, Open, Cls is_digit 3 (Some 4), chi 0x70, Close, WordB]"

text \<open>\<open>/\b(\d{2,3})\s*[-~]\s*(\d{2,3})\b/\<close>\<close>
definition EPISODE_RANGE :: "atom list" where
  "EPISODE_RANGE =
     seq [WordB, Open, Cls is_digit 2 (Some 3), Close, star_of is_space,
          single (any_of [0x2D, 0x7E]), star_of is_space,
          Open, Cls is_digit 2 (Some 3), Close, WordB]"

text \<open>\<open>/S(\d+)E(\d+)/i\<close>\<close>
definition SEASON_EPISODE :: "atom list" where
  "SEASON_EPISODE =
     seq [chi 0x53, Open, plus_of is_digit, Close, chi 0x45, Open, plus_of is_digit, Close]"

text \<open>\<open>/\s-\s(\d{1,4})\s/\<close>\<close>
definition EPISODE_DASH :: "atom list" where
  "EPISODE_DASH =
     seq [single is_space, ch 0x2D, single is_space, Open, Cls is_digit 1 (Some 4), Close,
          single is_space]"

text \<open>\<open>/\b(\d{1,4})\b/g\<close>\<close>
definition EPISODE_NUMBER :: "atom list" where
  "EPISODE_NUMBER = seq [WordB, Open, Cls is_digit 1 (Some 4), Close, WordB]"

text \<open>\<open>/epis\<acute>odio\s+(\d+)/i\<close>, the fifth letter being U+00F3\<close>
definition PORTUGUESE :: "atom list" where
  "PORTUGUESE =
     seq (stri ''epis'' @ [chi 0xF3] @ stri ''dio'' @
          [plus_of is_space, Open, plus_of is_digit, Close])"

text \<open>\<open>/(?:ep|episode)\s*(\d+)/i\<close>\<close>
definition ENGLISH :: "atom list" where
  "ENGLISH =
     Alt [stri ''ep'', stri ''episode''] # seq [star_of is_space, Open, plus_of is_digit, Close]"

text \<open>\<open>/\bs\d+\b/\<close>, \<open>/\bs\d+e\d+\b/\<close> and \<open>/\s-\s\d{1,3}(\s|$)/\<close> of \<open>isBatchTorrent\<close>\<close>
definition SEASON_ONLY :: "atom list" where
  "SEASON_ONLY = seq [WordB, ch 0x73, plus_of is_digit, WordB]"

definition SEASON_WITH_EPISODE :: "atom list" where
  "SEASON_WITH_EPISODE = seq [WordB, ch 0x73, plus_of is_digit, ch 0x65, plus_of is_digit, WordB]"

definition SINGLE_EPISODE :: "atom list" where
  "SINGLE_EPISODE =
     seq [single is_space, ch 0x2D, single is_space, Cls is_digit 1 (Some 3), Open] @
     [Alt [[single is_space], [Eol]]] @ seq [Close]"

text \<open>\<open>/\s+/g\<close>\<close>
definition SPACES :: "atom list" where
  "SPACES = seq [plus_of is_space]"

section \<open>Type guards\<close>

definition isValidMagnetLink :: "jsstring \<Rightarrow> bool" where
  "isValidMagnetLink link = (startsWith link (js ''magnet:?'') \<and> length link > 20)"

definition isValidInfoHash :: "jsstring \<Rightarrow> bool" where
  "isValidInfoHash hash = test VALID_INFO_HASH hash"

definition isValidEpisodeNumber :: "int \<Rightarrow> bool" where
  "isValidEpisodeNumber num = (num \<ge> MIN_EPISODE_NUMBER \<and> num \<le> MAX_EPISODE_NUMBER)"

definition isFuzzyScore :: "rat \<Rightarrow> bool" where
  "isFuzzyScore score = (score \<ge> 0 \<and> score \<le> 100)"

text \<open>A distance is an \<open>int\<close>, so \<open>Number.isInteger\<close> holds by its type.\<close>

definition isValidStringDistance :: "int \<Rightarrow> bool" where
  "isValidStringDistance distance = (distance \<ge> 0)"

section \<open>TorrentParser\<close>

definition extractInfoHash :: "jsstring \<Rightarrow> jsstring" where
  "extractInfoHash magnetLink =
     (if \<not> isValidMagnetLink magnetLink then []
      else case exec INFO_HASH magnetLink of
             None \<Rightarrow> []
           | Some m \<Rightarrow>
               (case capture 1 m of
                  None \<Rightarrow> []
                | Some hash \<Rightarrow> if hash \<noteq> [] \<and> isValidInfoHash hash then hash else []))"

definition validResolutions :: "jsstring list" where
  "validResolutions = [js ''480p'', js ''720p'', js ''1080p'', js ''1440p'', js ''4K'']"

definition parseResolution :: "jsstring \<Rightarrow> jsstring" where
  "parseResolution name =
     (case exec RESOLUTION name of
        None \<Rightarrow> []
      | Some m \<Rightarrow>
          (case capture 1 m of
             None \<Rightarrow> []
           | Some resolution \<Rightarrow>
               if resolution \<in> set validResolutions then resolution else []))"

definition range_is_batch :: "jsstring \<Rightarrow> bool" where
  "range_is_batch name =
     (case exec EPISODE_RANGE name of
        None \<Rightarrow> False
      | Some rangeMatch \<Rightarrow>
          (case (Option.bind (capture 1 rangeMatch) parseInt,
                 Option.bind (capture 2 rangeMatch) parseInt) of
             (Some start, Some end) \<Rightarrow>
               end > start \<and> start \<ge> MIN_EPISODE_NUMBER \<and> end \<le> MAX_BATCH_EPISODES
           | _ \<Rightarrow> False))"

definition isBatchTorrent :: "jsstring \<Rightarrow> jsstring \<Rightarrow> bool" where
  "isBatchTorrent name episodeTitle =
     (let lowerName = toLowerCase name; lowerTitle = toLowerCase episodeTitle
      in if includes_js lowerName (js ''batch'') \<or> includes_js lowerName (js ''complete'') \<or>
            includes_js lowerTitle (js ''~'')
         then True
         else if range_is_batch name then True
         else if test SEASON_ONLY lowerName \<and> \<not> test SEASON_WITH_EPISODE lowerName then True
         else if test SINGLE_EPISODE name then False
         else False)"

definition tryExtractFromPattern :: "jsstring \<Rightarrow> atom list \<Rightarrow> int option" where
  "tryExtractFromPattern text pattern =
     (case exec pattern text of
        None \<Rightarrow> None
      | Some m \<Rightarrow>
          (case Option.bind (capture 1 m) parseInt of
             None \<Rightarrow> None
           | Some num \<Rightarrow> if isValidEpisodeNumber num then Some num else None))"

definition tryExtractFromSeasonEpisode :: "jsstring \<Rightarrow> int option" where
  "tryExtractFromSeasonEpisode name =
     (case exec SEASON_EPISODE name of
        None \<Rightarrow> None
      | Some m \<Rightarrow>
          (case Option.bind (capture 2 m) parseInt of
             None \<Rightarrow> None
           | Some episodeNum \<Rightarrow> if isValidEpisodeNumber episodeNum then Some episodeNum else None))"

definition isValidEpisodeForIsolation :: "int \<Rightarrow> bool" where
  "isValidEpisodeForIsolation num =
     (isValidEpisodeNumber num \<and> num \<notin> set COMMON_RESOLUTIONS \<and> num < MAX_YEAR)"

fun first_isolated :: "jsstring list \<Rightarrow> int option" where
  "first_isolated [] = None"
| "first_isolated (numStr # matches) =
     (case parseInt numStr of
        None \<Rightarrow> first_isolated matches
      | Some num \<Rightarrow> if isValidEpisodeForIsolation num then Some num else first_isolated matches)"

definition tryExtractFromIsolatedNumbers :: "jsstring \<Rightarrow> int option" where
  "tryExtractFromIsolatedNumbers name = first_isolated (match_all EPISODE_NUMBER name)"

definition extractionStrategies :: "jsstring \<Rightarrow> jsstring \<Rightarrow> (unit \<Rightarrow> int option) list" where
  "extractionStrategies name episodeTitle =
     [\<lambda>_. tryExtractFromPattern episodeTitle PORTUGUESE,
      \<lambda>_. tryExtractFromPattern name EPISODE_DASH,
      \<lambda>_. tryExtractFromSeasonEpisode name,
      \<lambda>_. tryExtractFromPattern name ENGLISH,
      \<lambda>_. tryExtractFromIsolatedNumbers name]"

definition extractEpisodeNumber :: "jsstring \<Rightarrow> jsstring \<Rightarrow> int" where
  "extractEpisodeNumber name episodeTitle =
     (if isBatchTorrent name episodeTitle then - 1
      else case first_some (\<lambda>strategy. strategy ()) (extractionStrategies name episodeTitle) of
             Some result \<Rightarrow> result
           | None \<Rightarrow> - 1)"

section \<open>PerformanceCache\<close>

record 'a CacheEntry =
  data :: 'a
  timestamp :: int
  key :: jsstring

record PerformanceMetrics =
  searchTime :: int
  parseTime :: int
  cacheHits :: int
  cacheMisses :: int
  fuzzyMatchCount :: int

text \<open>
  The static \<open>Map\<close> keeps its keys in insertion order: an association list without
  duplicate keys, oldest first. \<open>map_set\<close> on a key that is present replaces the value
  where it stands; on a new key it appends.
\<close>

record 'a PerformanceCache =
  cache :: "(jsstring \<times> 'a CacheEntry) list"
  metrics :: PerformanceMetrics

fun map_get :: "('k \<times> 'v) list \<Rightarrow> 'k \<Rightarrow> 'v option" where
  "map_get [] k = None"
| "map_get ((k', v) # m) k = (if k' = k then Some v else map_get m k)"

fun map_set :: "('k \<times> 'v) list \<Rightarrow> 'k \<Rightarrow> 'v \<Rightarrow> ('k \<times> 'v) list" where
  "map_set [] k v = [(k, v)]"
| "map_set ((k', v') # m) k v = (if k' = k then (k, v) # m else (k', v') # map_set m k v)"

definition map_delete :: "('k \<times> 'v) list \<Rightarrow> 'k \<Rightarrow> ('k \<times> 'v) list" where
  "map_delete m k = filter (\<lambda>e. fst e \<noteq> k) m"

definition map_has :: "('k \<times> 'v) list \<Rightarrow> 'k \<Rightarrow> bool" where
  "map_has m k = (map_get m k \<noteq> None)"

definition createCacheKey :: "jsstring \<Rightarrow> jsstring" where
  "createCacheKey k = replace_all SPACES [Lit (js ''_'')] (toLowerCase k)"

definition initial_metrics :: PerformanceMetrics where
  "initial_metrics =
     \<lparr>searchTime = 0, parseTime = 0, cacheHits = 0, cacheMisses = 0, fuzzyMatchCount = 0\<rparr>"

definition count_miss :: "'a PerformanceCache \<Rightarrow> 'a PerformanceCache" where
  "count_miss c = c\<lparr>metrics := (metrics c)\<lparr>cacheMisses := cacheMisses (metrics c) + 1\<rparr>\<rparr>"

definition count_hit :: "'a PerformanceCache \<Rightarrow> 'a PerformanceCache" where
  "count_hit c = c\<lparr>metrics := (metrics c)\<lparr>cacheHits := cacheHits (metrics c) + 1\<rparr>\<rparr>"

text \<open>\<open>now\<close> is the value of \<open>Date.now()\<close> at the call.\<close>

definition cache_get :: "int \<Rightarrow> jsstring \<Rightarrow> 'a PerformanceCache \<Rightarrow> 'a option \<times> 'a PerformanceCache" where
  "cache_get now k c =
     (let cacheKey = createCacheKey k
      in case map_get (cache c) cacheKey of
           None \<Rightarrow> (None, count_miss c)
         | Some entry \<Rightarrow>
             if now - timestamp entry > CACHE_TTL_MS
             then (None, count_miss (c\<lparr>cache := map_delete (cache c) cacheKey\<rparr>))
             else (Some (data entry), count_hit c))"

text \<open>
  \<open>if (firstKey) this._cache.delete(firstKey)\<close>: the first key of an empty map is
  \<open>undefined\<close> and the empty string is falsy, so neither is deleted.
\<close>

definition evict_first :: "'a PerformanceCache \<Rightarrow> 'a PerformanceCache" where
  "evict_first c =
     (case cache c of
        [] \<Rightarrow> c
      | (firstKey, _) # _ \<Rightarrow>
          if firstKey \<noteq> [] then c\<lparr>cache := map_delete (cache c) firstKey\<rparr> else c)"

definition cache_set :: "int \<Rightarrow> jsstring \<Rightarrow> 'a \<Rightarrow> 'a PerformanceCache \<Rightarrow> 'a PerformanceCache" where
  "cache_set now k d c =
     (let c1 = (if length (cache c) \<ge> MAX_CACHE_SIZE then evict_first c else c);
          cacheKey = createCacheKey k;
          entry = \<lparr>data = d, timestamp = now, key = cacheKey\<rparr>
      in c1\<lparr>cache := map_set (cache c1) cacheKey entry\<rparr>)"

definition incrementFuzzyCount :: "PerformanceMetrics \<Rightarrow> PerformanceMetrics" where
  "incrementFuzzyCount m = m\<lparr>fuzzyMatchCount := fuzzyMatchCount m + 1\<rparr>"

section \<open>StringNormalizer\<close>

text \<open>
  \<open>CHARACTER_NORMALIZATIONS\<close>, in the order of its entries: the accented vowels and
  consonants, the macron vowels, and the space variants U+3000, tab, line feed and
  carriage return.
\<close>

definition CHARACTER_NORMALIZATIONS :: "(jschar \<times> jschar) list" where
  "CHARACTER_NORMALIZATIONS =
     [(0xE1, 0x61), (0xE0, 0x61), (0xE2, 0x61), (0xE3, 0x61), (0xE4, 0x61),
      (0xE9, 0x65), (0xE8, 0x65), (0xEA, 0x65), (0xEB, 0x65),
      (0xED, 0x69), (0xEC, 0x69), (0xEE, 0x69), (0xEF, 0x69),
      (0xF3, 0x6F), (0xF2, 0x6F), (0xF4, 0x6F), (0xF5, 0x6F), (0xF6, 0x6F),
      (0xFA, 0x75), (0xF9, 0x75), (0xFB, 0x75), (0xFC, 0x75),
      (0xE7, 0x63), (0xF1, 0x6E),
      (0x14D, 0x6F), (0x16B, 0x75), (0x101, 0x61), (0x113, 0x65), (0x12B, 0x69),
      (0x3000, 0x20), (0x09, 0x20), (0x0A, 0x20), (0x0D, 0x20)]"

text \<open>\<open>ANIME_TITLE_VARIATIONS.patterns\<close>: each \<open>from\<close> with its \<open>to\<close>.\<close>

definition ANIME_TITLE_VARIATIONS :: "(atom list \<times> rpart list) list" where
  "ANIME_TITLE_VARIATIONS =
     [(seq (stri ''mahou'' @ [plus_of is_space] @ stri ''tsukai''), [Lit (js ''mahoutsukai'')]),
      (seq (stri ''maho'' @ [plus_of is_space] @ stri ''tsukai''), [Lit (js ''mahotsukai'')]),
      (seq (stri ''seirei'' @ [plus_of is_space] @ stri ''tsukai''), [Lit (js ''seireitsukai'')]),
      (seq (stri ''ken'' @ [plus_of is_space] @ stri ''shi''), [Lit (js ''kenshi'')]),
      (seq (stri ''yuu'' @ [plus_of is_space] @ stri ''sha''), [Lit (js ''yuusha'')]),
      (seq (str ''ou''), [Lit (js ''o'')]),
      (seq (str ''uu''), [Lit (js ''u'')]),
      (seq (str ''ei''), [Lit (js ''e'')]),
      (seq (stri ''season'' @ [star_of is_space, Open, plus_of is_digit, Close]),
       [Lit (js ''S''), Ref 1]),
      (seq (stri ''episod'' @
            [single (any_of [0x65, 0x45, 0x69, 0x49]), Cls (eqi 0x6F) 0 (Some 1),
             star_of is_space, Open, plus_of is_digit, Close]),
       [Lit (js ''E''), Ref 1])]"

definition normalize :: "jsstring \<Rightarrow> jsstring" where
  "normalize input =
     (let result = trim (toLowerCase input);
          result = fold (\<lambda>(from, to) r. replace_all (seq [ch from]) [Lit [to]] r)
                     CHARACTER_NORMALIZATIONS result;
          result = fold (\<lambda>(from, to) r. replace_all from to r) ANIME_TITLE_VARIATIONS result
      in trim (replace_all SPACES [Lit (js '' '')] result))"

text \<open>\<open>/[\[\](){}]/g\<close> and \<open>/[^\w\s\-]/g\<close> of \<open>clean\<close>\<close>

definition is_special :: "jschar \<Rightarrow> bool" where
  "is_special c = (\<not> is_word c \<and> \<not> is_space c \<and> c \<noteq> 0x2D)"

definition clean :: "jsstring \<Rightarrow> jsstring" where
  "clean input =
     trim (replace_all SPACES [Lit (js '' '')]
       (replace_all (seq [single is_special]) [Lit []]
         (replace_all (seq [single (any_of [0x5B, 0x5D, 0x28, 0x29, 0x7B, 0x7D])]) [Lit []]
            input)))"

section \<open>LevenshteinCalculator\<close>

text \<open>
  The matrix is an array of rows. A JavaScript array grows by one when the index equal
  to its length is written, which is the only kind of write outside a row that
  \<open>calculate\<close> makes. \<open>init_cell\<close> is the body of the loop that sets row 0,
  \<open>fill_cell\<close> the body of the inner loop, \<open>fill_row\<close> the inner loop.
\<close>

definition arr_set :: "'a list \<Rightarrow> nat \<Rightarrow> 'a \<Rightarrow> 'a list" where
  "arr_set xs i v = (if i < length xs then xs[i := v] else xs @ [v])"

definition cell_set :: "int list list \<Rightarrow> nat \<Rightarrow> nat \<Rightarrow> int \<Rightarrow> int list list" where
  "cell_set m i j v = m[i := arr_set (m ! i) j v]"

definition min3 :: "int \<Rightarrow> int \<Rightarrow> int \<Rightarrow> int" where
  "min3 x y z = min x (min y z)"

definition cell :: "jsstring \<Rightarrow> jsstring \<Rightarrow> int list list \<Rightarrow> nat \<Rightarrow> nat \<Rightarrow> int" where
  "cell a b m i j =
     (if b ! (i - 1) = a ! (j - 1) then m ! (i - 1) ! (j - 1)
      else min3 (m ! (i - 1) ! (j - 1) + 1) (m ! i ! (j - 1) + 1) (m ! (i - 1) ! j + 1))"

definition init_cell :: "nat \<Rightarrow> int list list \<Rightarrow> int list list" where
  "init_cell j m = cell_set m 0 j (int j)"

definition fill_cell :: "jsstring \<Rightarrow> jsstring \<Rightarrow> nat \<Rightarrow> nat \<Rightarrow> int list list \<Rightarrow> int list list" where
  "fill_cell a b i j m = cell_set m i j (cell a b m i j)"

definition fill_row :: "jsstring \<Rightarrow> jsstring \<Rightarrow> nat \<Rightarrow> int list list \<Rightarrow> int list list" where
  "fill_row a b i m = fold (fill_cell a b i) [1..<Suc (length a)] m"

definition calculate :: "jsstring \<Rightarrow> jsstring \<Rightarrow> int" where
  "calculate a b =
     (let aLen = length a;
          bLen = length b;
          matrix = map (\<lambda>i. [int i]) [0..<Suc bLen];
          matrix = fold init_cell [0..<Suc aLen] matrix;
          matrix = fold (fill_row a b) [1..<Suc bLen] matrix;
          distance = matrix ! bLen ! aLen
      in if isValidStringDistance distance then distance else 0)"

definition calculateSimilarity :: "jsstring \<Rightarrow> jsstring \<Rightarrow> int \<Rightarrow> rat" where
  "calculateSimilarity a b distance =
     (let maxLen = max (length a) (length b)
      in if maxLen = 0 then 1
         else max 0 ((of_nat maxLen - of_int distance) / of_nat maxLen))"

section \<open>FuzzyStringMatcher\<close>

text \<open>
  A JavaScript number is modelled by the rational it denotes; \<open>Math.round\<close> rounds a
  half upwards.
\<close>

datatype MatchStrategy = Exact | Fuzzy | Normalized | Phonetic

record Weights =
  exact :: rat
  fuzzy :: rat
  normalized :: rat
  phonetic :: rat

record FuzzyMatchConfig =
  maxDistance :: rat
  minSimilarity :: rat
  strategies :: "MatchStrategy list"
  weights :: Weights

definition FUZZY_MATCH_CONFIG :: FuzzyMatchConfig where
  "FUZZY_MATCH_CONFIG =
     \<lparr>maxDistance = 5, minSimilarity = 6 / 10,
      strategies = [Exact, Fuzzy, Normalized, Phonetic],
      weights = \<lparr>exact = 100, fuzzy = 80, normalized = 70, phonetic = 60\<rparr>\<rparr>"

definition round_js :: "rat \<Rightarrow> rat" where
  "round_js x = of_int \<lfloor>x + 1 / 2\<rfloor>"

definition exactMatch :: "jsstring \<Rightarrow> jsstring \<Rightarrow> rat \<Rightarrow> rat" where
  "exactMatch query target w =
     (let queryNorm = trim (toLowerCase query);
          targetNorm = trim (toLowerCase target)
      in if queryNorm = targetNorm then w
         else if includes_js targetNorm queryNorm then w * (8 / 10)
         else if includes_js queryNorm targetNorm then w * (7 / 10)
         else 0)"

definition fuzzyMatch :: "jsstring \<Rightarrow> jsstring \<Rightarrow> FuzzyMatchConfig \<Rightarrow> rat" where
  "fuzzyMatch query target config =
     (let distance = calculate query target
      in if of_int distance > maxDistance config then 0
         else let similarity = calculateSimilarity query target distance
              in if similarity < minSimilarity config then 0
                 else round_js (similarity * fuzzy (weights config)))"

definition normalizedMatch :: "jsstring \<Rightarrow> jsstring \<Rightarrow> rat \<Rightarrow> rat" where
  "normalizedMatch query target w =
     (let queryNorm = normalize query;
          targetNorm = normalize target
      in if queryNorm = targetNorm then w
         else if includes_js targetNorm queryNorm then w * (8 / 10)
         else if includes_js queryNorm targetNorm then w * (7 / 10)
         else let queryClean = clean queryNorm;
                  targetClean = clean targetNorm
              in if queryClean = targetClean then w * (6 / 10)
                 else if includes_js targetClean queryClean then w * (5 / 10)
                 else 0)"

text \<open>\<open>/[^a-z0-9\s]/g\<close> of \<open>toPhonetic\<close>\<close>

definition not_phonetic :: "jschar \<Rightarrow> bool" where
  "not_phonetic c = (\<not> in_range 0x61 0x7A c \<and> \<not> is_digit c \<and> \<not> is_space c)"

definition toPhonetic :: "jsstring \<Rightarrow> jsstring" where
  "toPhonetic input =
     trim (replace_all SPACES [Lit []]
       (replace_all (seq [single not_phonetic]) [Lit []]
         (replace_all (seq (str ''ei'')) [Lit (js ''e'')]
           (replace_all (seq (str ''uu'')) [Lit (js ''u'')]
             (replace_all (seq (str ''ou'')) [Lit (js ''o'')] (toLowerCase input))))))"

definition phoneticMatch :: "jsstring \<Rightarrow> jsstring \<Rightarrow> rat \<Rightarrow> rat" where
  "phoneticMatch query target w =
     (let queryPhonetic = toPhonetic query;
          targetPhonetic = toPhonetic target
      in if queryPhonetic = targetPhonetic then w
         else if includes_js targetPhonetic queryPhonetic then w * (7 / 10)
         else 0)"

text \<open>
  The loop of \<open>match\<close> over the strategies, in order: it keeps the best score and
  stops after a strategy that scores exactly 100.
\<close>

fun best_of :: "(unit \<Rightarrow> rat) list \<Rightarrow> rat \<Rightarrow> rat" where
  "best_of [] bestScore = bestScore"
| "best_of (strategy # others) bestScore =
     (let score = strategy ();
          bestScore = (if score > bestScore then score else bestScore)
      in if score = 100 then bestScore else best_of others bestScore)"

definition match_strategies :: "jsstring \<Rightarrow> jsstring \<Rightarrow> FuzzyMatchConfig \<Rightarrow> (unit \<Rightarrow> rat) list" where
  "match_strategies query target config =
     [\<lambda>_. exactMatch query target (exact (weights config)),
      \<lambda>_. fuzzyMatch query target config,
      \<lambda>_. normalizedMatch query target (normalized (weights config)),
      \<lambda>_. phoneticMatch query target (phonetic (weights config))]"

definition match :: "jsstring \<Rightarrow> jsstring \<Rightarrow> FuzzyMatchConfig \<Rightarrow> rat" where
  "match query target config =
     (let bestScore = best_of (match_strategies query target config) 0
      in if isFuzzyScore bestScore then bestScore else 0)"

text \<open>
  \<open>match\<close> as an operation on the program state: its body, and the bodies of the
  strategies it calls, read and write no field of \<open>PerformanceCache\<close>.
\<close>

definition match_op ::
  "jsstring \<Rightarrow> jsstring \<Rightarrow> FuzzyMatchConfig \<Rightarrow> PerformanceMetrics \<Rightarrow> rat \<times> PerformanceMetrics" where
  "match_op query target config m = (match query target config, m)"

section \<open>AnimePageExtractor\<close>

record ScoreMatch =
  url :: jsstring
  title :: jsstring
  score :: rat
  strategy :: MatchStrategy
  normalizedTitle :: "jsstring option"

text \<open>\<open>/\/([^\/]+)\/?$/\<close>\<close>
definition SLUG :: "atom list" where
  "SLUG = seq [ch 0x2F, Open, plus_of (none_of [0x2F]), Close, Cls (eqc 0x2F) 0 (Some 1), Eol]"

definition extractSlugFromURL :: "jsstring \<Rightarrow> jsstring" where
  "extractSlugFromURL u =
     (case exec SLUG u of
        None \<Rightarrow> []
      | Some slugMatch \<Rightarrow>
          (case capture 1 slugMatch of
             None \<Rightarrow> []
           | Some slug \<Rightarrow>
               trim (replace_all (seq [ch 0x5F]) [Lit (js '' '')]
                 (replace_all (seq [ch 0x2D]) [Lit (js '' '')] slug))))"

definition calculateCompoundWordScore :: "jsstring \<Rightarrow> jsstring \<Rightarrow> rat" where
  "calculateCompoundWordScore query ttl =
     (let queryWords = split_js SPACES (toLowerCase query);
          titleLower = toLowerCase ttl;
          joinedQuery = concat queryWords
      in if includes_js titleLower joinedQuery then 85
         else let expandedTitle =
                    replace_all (seq (str ''yuusha'')) [Lit (js ''yuu sha'')]
                      (replace_all (seq (str ''kenshi'')) [Lit (js ''ken shi'')]
                        (replace_all (seq (str ''seireitsukai'')) [Lit (js ''seirei tsukai'')]
                          (replace_all (seq (str ''mahoutsukai'')) [Lit (js ''mahou tsukai'')]
                             titleLower)))
              in if includes_js expandedTitle (toLowerCase query) then 80
                 else let partialMatches =
                            length (filter (\<lambda>word. includes_js titleLower word \<and> length word > 2)
                                      queryWords)
                      in if partialMatches > 0 then min 70 (of_nat partialMatches * 25) else 0)"

definition calculateAdvancedMatchScore ::
  "jsstring \<Rightarrow> jsstring \<Rightarrow> jsstring \<Rightarrow> PerformanceMetrics \<Rightarrow> ScoreMatch \<times> PerformanceMetrics" where
  "calculateAdvancedMatchScore query ttl u m0 =
     (let m1 = incrementFuzzyCount m0;
          queryLower = toLowerCase query;
          titleLower = toLowerCase ttl
      in if queryLower = titleLower
         then (\<lparr>url = u, title = ttl, score = 100, strategy = Exact,
                normalizedTitle = Some titleLower\<rparr>, m1)
         else if includes_js titleLower queryLower
         then (\<lparr>url = u, title = ttl, score = 90, strategy = Exact,
                normalizedTitle = Some titleLower\<rparr>, m1)
         else let compoundScore = calculateCompoundWordScore query ttl
              in if compoundScore \<ge> 80
                 then (\<lparr>url = u, title = ttl, score = compoundScore, strategy = Phonetic,
                        normalizedTitle = Some titleLower\<rparr>, m1)
                 else let urlSlug = extractSlugFromURL u;
                          (urlScore, m2) =
                            (if length urlSlug > 3 then match_op query urlSlug FUZZY_MATCH_CONFIG m1
                             else (0, m1))
                      in if length urlSlug > 3 \<and> urlScore \<ge> 75
                         then (\<lparr>url = u, title = ttl, score = urlScore, strategy = Normalized,
                                normalizedTitle = Some titleLower\<rparr>, m2)
                         else let normalizedQuery = normalize query;
                                  normalizedTtl = normalize ttl;
                                  (fuzzyScore, m3) =
                                    match_op normalizedQuery normalizedTtl FUZZY_MATCH_CONFIG m2;
                                  finalScore = (if isFuzzyScore fuzzyScore then fuzzyScore else 0)
                              in (\<lparr>url = u, title = ttl, score = finalScore, strategy = Fuzzy,
                                    normalizedTitle =
                                      (if length normalizedTtl > 0 then Some normalizedTtl
                                       else None)\<rparr>, m3))"

section \<open>Evaluation rules\<close>

text \<open>
  The equations by which the simplifier runs the model on a concrete input. A character
  class is unfolded only where it is applied to a numeral.
\<close>

lemmas pattern_defs = INFO_HASH_def VALID_INFO_HASH_def RESOLUTION_def EPISODE_RANGE_def
  SEASON_EPISODE_def EPISODE_DASH_def EPISODE_NUMBER_def PORTUGUESE_def ENGLISH_def SEASON_ONLY_def
  SEASON_WITH_EPISODE_def SINGLE_EPISODE_def SPACES_def SLUG_def

lemmas class_eval = is_space_def [of "numeral n"] is_digit_def [of "numeral n"]
  is_word_def [of "numeral n"] is_hex_def [of "numeral n"] eqc_def [of _ "numeral n"]
  eqi_def [of _ "numeral n"] any_of_def [of _ "numeral n"] none_of_def [of _ "numeral n"]
  canonicalize_def [of "numeral n"] in_range_def [of _ _ "numeral n"]
  is_special_def [of "numeral n"] not_phonetic_def [of "numeral n"] lower_unit_def [of "numeral n"]
  for n

lemmas regex_eval = seq_def str_def stri_def ch_def chi_def single_def plus_of_def star_of_def
  exec_def test_def init_state_def advance_def run_length_def at_boundary_def capture_def
  match_all_def replace_all_def split_js_def expand_def Let_def

lemmas string_eval = js_def toLowerCase_def trim_def startsWith_def parseInt_def

section \<open>The last rule of isBatchTorrent\<close>

text \<open>
  \<open>isBatchTorrent\<close> with its last rule (the isolated \<open>" - NNN "\<close> pattern, answering
  false) taken out; everything else is as in the source.
\<close>

definition isBatchTorrent_without_single_rule :: "jsstring \<Rightarrow> jsstring \<Rightarrow> bool" where
  "isBatchTorrent_without_single_rule name episodeTitle =
     (let lowerName = toLowerCase name; lowerTitle = toLowerCase episodeTitle
      in if includes_js lowerName (js ''batch'') \<or> includes_js lowerName (js ''complete'') \<or>
            includes_js lowerTitle (js ''~'')
         then True
         else if range_is_batch name then True
         else if test SEASON_ONLY lowerName \<and> \<not> test SEASON_WITH_EPISODE lowerName then True
         else False)"

lemma single_rule_reached:
  "test SINGLE_EPISODE (js ''Show - 05 '') \<and> \<not> isBatchTorrent (js ''Show - 05 '') []"
  by (simp add: isBatchTorrent_def range_is_batch_def pattern_defs class_eval regex_eval string_eval)

text \<open>
  C9. The single-episode rule at the end of \<open>isBatchTorrent\<close> cannot be observed: for
  every name and episode title the function returns what it returns with that rule
  removed, since the rule and the default both answer false.
\<close>

theorem isBatchTorrent_single_rule_unobservable:
  "isBatchTorrent name episodeTitle = isBatchTorrent_without_single_rule name episodeTitle"
  by (simp add: isBatchTorrent_def isBatchTorrent_without_single_rule_def)

text \<open>
  The name \<open>"Show - 05 "\<close> reaches the rule (it matches the pattern and no earlier rule
  fires), and both functions answer false.
\<close>

theorem isBatchTorrent_single_rule_unobservable_witness:
  "test SINGLE_EPISODE (js ''Show - 05 '') \<and>
   isBatchTorrent (js ''Show - 05 '') [] = False \<and>
   isBatchTorrent_without_single_rule (js ''Show - 05 '') [] = False"
  using isBatchTorrent_single_rule_unobservable [of "js ''Show - 05 ''" "[]"] single_rule_reached
  by simp

section \<open>The range of match\<close>

text \<open>
  C5. For every query, target and configuration, \<open>match\<close> returns a score between 0
  and 100: the best score of the strategies is returned only if it passes
  \<open>isFuzzyScore\<close>, and 0 otherwise.
\<close>

theorem match_score_in_range:
  "0 \<le> match query target config \<and> match query target config \<le> 100"
  by (simp add: match_def isFuzzyScore_def Let_def)

text \<open>The same at a configuration whose weights are all 1000.\<close>

theorem match_score_in_range_witness:
  "match (js ''a'') (js ''a'')
     \<lparr>maxDistance = 5, minSimilarity = 6 / 10, strategies = [],
      weights = \<lparr>exact = 1000, fuzzy = 1000, normalized = 1000, phonetic = 1000\<rparr>\<rparr> \<le> 100"
  using match_score_in_range [of "js ''a''" "js ''a''"
      "\<lparr>maxDistance = 5, minSimilarity = 6 / 10, strategies = [],
        weights = \<lparr>exact = 1000, fuzzy = 1000, normalized = 1000, phonetic = 1000\<rparr>\<rparr>"]
  by simp

section \<open>The empty query\<close>

lemma lower_unit_space:
  assumes "is_space c"
  shows "lower_unit c = [c]"
proof -
  from assms have "c < 0x41 \<or> c = 0xA0 \<or> 0x17E < c"
    unfolding is_space_def in_range_def by linarith
  then show ?thesis
    unfolding lower_unit_def in_range_def by (elim disjE) simp_all
qed

lemma toLowerCase_blank: "list_all is_space q \<Longrightarrow> toLowerCase q = q"
  by (induction q) (simp_all add: toLowerCase_def lower_unit_space)

lemma trim_blank: "list_all is_space q \<Longrightarrow> trim q = []"
  by (simp add: trim_def list_all_iff dropWhile_eq_Nil_conv [THEN iffD2])

lemma includes_js_Nil: "includes_js s []"
  by (cases s) (simp_all add: startsWith_def)

lemma exactMatch_blank:
  "list_all is_space query \<Longrightarrow>
   exactMatch query target w = (if trim (toLowerCase target) = [] then w else w * (8 / 10))"
  by (auto simp: exactMatch_def Let_def toLowerCase_blank trim_blank includes_js_Nil)

lemma calculate_nonneg: "0 \<le> calculate a b"
  by (simp add: calculate_def Let_def isValidStringDistance_def)

lemma calculateSimilarity_le_1: "0 \<le> d \<Longrightarrow> calculateSimilarity a b d \<le> 1"
  by (auto simp: calculateSimilarity_def Let_def divide_le_eq_1)

lemma round_js_le: "x \<le> 80 \<Longrightarrow> round_js x \<le> 80"
  unfolding round_js_def by (simp add: floor_le_iff) 

lemma fuzzyMatch_default_le: "fuzzyMatch query target FUZZY_MATCH_CONFIG \<le> 80"
proof -
  have "calculateSimilarity query target (calculate query target) * 80 \<le> 80"
    using calculateSimilarity_le_1 [OF calculate_nonneg, of query target query target] by simp
  then show ?thesis
    by (simp add: fuzzyMatch_def FUZZY_MATCH_CONFIG_def Let_def round_js_le)
qed

lemma normalizedMatch_le: "0 \<le> w \<Longrightarrow> normalizedMatch query target w \<le> w"
  by (simp add: normalizedMatch_def Let_def mult_le_cancel_left1)

lemma phoneticMatch_le: "0 \<le> w \<Longrightarrow> phoneticMatch query target w \<le> w"
  by (simp add: phoneticMatch_def Let_def mult_le_cancel_left1)


lemma best_of_lower: "b \<le> best_of ss b"
proof (induction ss arbitrary: b)
  case Nil
  show ?case by simp
next
  case (Cons s ss)
  have "b \<le> (if s () > b then s () else b)" by simp
  also have "\<dots> \<le> best_of ss (if s () > b then s () else b)" by (rule Cons.IH)
  finally show ?case by (simp add: Let_def)
qed

lemma best_of_upper: "list_all (\<lambda>s. s () \<le> u) ss \<Longrightarrow> b \<le> u \<Longrightarrow> best_of ss b \<le> u"
proof (induction ss arbitrary: b)
  case Nil
  then show ?case by simp
next
  case (Cons s ss)
  from Cons.prems have 1: "s () \<le> u" and 2: "list_all (\<lambda>s. s () \<le> u) ss" by simp_all
  have 3: "(if s () > b then s () else b) \<le> u" using 1 Cons.prems(2) by simp
  show ?case using Cons.IH [OF 2 3] 3 by (auto simp: Let_def split: if_splits)
qed

text \<open>
  C10. Under the default configuration an empty or white-space-only query is never
  rejected: for every target the exact strategy awards at least 80 (the trimmed query is
  the empty string, which every target contains), and \<open>match\<close> returns 100 when the
  target also trims to the empty string and 80 otherwise.
\<close>

theorem match_blank_query_accepted:
  assumes "list_all is_space query"
  shows "80 \<le> exactMatch query target (exact (weights FUZZY_MATCH_CONFIG)) \<and>
         80 \<le> match query target FUZZY_MATCH_CONFIG \<and>
         (if trim (toLowerCase target) = [] then match query target FUZZY_MATCH_CONFIG = 100
          else match query target FUZZY_MATCH_CONFIG = 80)"
proof -
  let ?c = FUZZY_MATCH_CONFIG
  let ?others = "[\<lambda>_. fuzzyMatch query target ?c,
                  \<lambda>_. normalizedMatch query target (normalized (weights ?c)),
                  \<lambda>_. phoneticMatch query target (phonetic (weights ?c))]"
  have w: "exact (weights ?c) = 100" "normalized (weights ?c) = 70" "phonetic (weights ?c) = 60"
    by (simp_all add: FUZZY_MATCH_CONFIG_def)
  have e: "exactMatch query target 100 = (if trim (toLowerCase target) = [] then 100 else 80)"
    using exactMatch_blank [OF assms, of target 100] by simp
  have f: "fuzzyMatch query target ?c \<le> 80"
    by (rule fuzzyMatch_default_le)
  have n: "normalizedMatch query target 70 \<le> 80"
    using normalizedMatch_le [of 70 query target] by simp
  have p: "phoneticMatch query target 60 \<le> 80"
    using phoneticMatch_le [of 60 query target] by simp
  have others: "best_of ?others 80 = 80"
  proof (rule antisym)
    show "best_of ?others 80 \<le> 80"
      by (rule best_of_upper) (simp_all add: f n p w)
    show "80 \<le> best_of ?others 80"
      by (rule best_of_lower)
  qed
  have s: "match_strategies query target ?c = (\<lambda>_. exactMatch query target 100) # ?others"
    by (simp add: match_strategies_def w)
  have m: "match query target ?c = (if trim (toLowerCase target) = [] then 100 else 80)"
  proof (cases "trim (toLowerCase target) = []")
    case True
    then have "best_of (match_strategies query target ?c) 0 = 100"
      unfolding s by (simp add: e)
    then show ?thesis using True by (simp add: match_def isFuzzyScore_def)
  next
    case False
    then have "best_of (match_strategies query target ?c) 0 = best_of ?others 80"
      unfolding s by (simp add: e)
    then show ?thesis using False others by (simp add: match_def isFuzzyScore_def)
  qed
  show ?thesis
    using e m by (simp add: w)
qed

text \<open>
  Two spaces against \<open>"naruto"\<close> score 80; the empty query against the empty target
  scores 100.
\<close>

lemma blank_example: "list_all is_space (js ''  '')" "trim (toLowerCase (js ''naruto'')) \<noteq> []"
  by (simp_all add: string_eval class_eval)

theorem match_blank_query_accepted_witness:
  "match (js ''  '') (js ''naruto'') FUZZY_MATCH_CONFIG = 80 \<and> match [] [] FUZZY_MATCH_CONFIG = 100"
  using match_blank_query_accepted [of "js ''  ''" "js ''naruto''"]
    match_blank_query_accepted [of "[]" "[]"] blank_example
  by (simp add: toLowerCase_def trim_def)

section \<open>The fuzzy-match counter\<close>

text \<open>
  C7, as the spec states it: an invocation of \<open>match\<close> increments \<open>fuzzyMatchCount\<close>
  by one. It does not: \<open>match\<close> leaves the metrics as they are.
\<close>

theorem match_increments_counterexample:
  "fuzzyMatchCount (snd (match_op (js ''naruto'') (js ''naruto'') FUZZY_MATCH_CONFIG initial_metrics))
     \<noteq> fuzzyMatchCount initial_metrics + 1"
  by (simp add: match_op_def initial_metrics_def)

text \<open>
  C7, amended. Every invocation of \<open>calculateAdvancedMatchScore\<close> increments
  \<open>fuzzyMatchCount\<close> by exactly one, whichever branch returns and however many times
  it calls \<open>match\<close>; \<open>match\<close> itself does not change the metrics.
\<close>

theorem calculateAdvancedMatchScore_counts_once:
  "fuzzyMatchCount (snd (calculateAdvancedMatchScore query ttl u m)) = fuzzyMatchCount m + 1 \<and>
   snd (match_op query target config m) = m"
  by (simp add: calculateAdvancedMatchScore_def match_op_def incrementFuzzyCount_def Let_def)

theorem calculateAdvancedMatchScore_counts_once_witness:
  "fuzzyMatchCount (snd (calculateAdvancedMatchScore (js ''bleach'') (js ''Naruto'')
      (js ''https://darkmahou.io/naruto/'') initial_metrics)) = 1"
  using calculateAdvancedMatchScore_counts_once [of "js ''bleach''" "js ''Naruto''"
      "js ''https://darkmahou.io/naruto/''" initial_metrics]
  by (simp add: initial_metrics_def)

section \<open>Eviction in PerformanceCache.set\<close>

text \<open>
  A cache at capacity: the hundred keys \<open>"k00"\<close> to \<open>"k99"\<close>, inserted in that order.
\<close>

definition key_of :: "nat \<Rightarrow> jsstring" where
  "key_of i = [0x6B, 0x30 + i div 10, 0x30 + i mod 10]"

definition full_cache :: "nat PerformanceCache" where
  "full_cache =
     \<lparr>cache = map (\<lambda>i. (key_of i, \<lparr>data = i, timestamp = 0, key = key_of i\<rparr>)) [0..<100],
      metrics = initial_metrics\<rparr>"

lemma map_has_iff: "map_has m k = (k \<in> fst ` set m)"
  by (induction m) (auto simp: map_has_def)

lemma map_get_map_set:
  "map_get (map_set m k v) k' = (if k' = k then Some v else map_get m k')"
  by (induction m) auto

lemma map_get_map_delete:
  "map_get (map_delete m k) k' = (if k' = k then None else map_get m k')"
  by (induction m) (auto simp: map_delete_def)

lemma map_has_map_set: "map_has (map_set m k v) k' = (map_has m k' \<or> k' = k)"
  by (simp add: map_has_def map_get_map_set)

lemma map_has_map_delete: "map_has (map_delete m k) k' = (map_has m k' \<and> k' \<noteq> k)"
  by (simp add: map_has_def map_get_map_delete)

lemma map_delete_first:
  "distinct (map fst ((k, v) # m)) \<Longrightarrow> map_delete ((k, v) # m) k = m"
  by (auto simp: map_delete_def filter_id_conv)

lemma cache_set_below:
  "length (cache c) < MAX_CACHE_SIZE \<Longrightarrow>
   cache (cache_set now k d c) =
     map_set (cache c) (createCacheKey k) \<lparr>data = d, timestamp = now, key = createCacheKey k\<rparr>"
  by (simp add: cache_set_def Let_def)

lemma cache_set_full:
  assumes "distinct (map fst (cache c))" "MAX_CACHE_SIZE \<le> length (cache c)"
    "fst (hd (cache c)) \<noteq> []"
  shows "cache (cache_set now k d c) =
     map_set (tl (cache c)) (createCacheKey k) \<lparr>data = d, timestamp = now, key = createCacheKey k\<rparr>"
proof -
  from assms(2) obtain k0 v0 m where c: "cache c = (k0, v0) # m"
    by (cases "cache c") (auto simp: MAX_CACHE_SIZE_def)
  with assms(1) have "map_delete (cache c) k0 = m"
    using map_delete_first [of k0 v0 m] by simp
  with c assms(2,3) show ?thesis
    by (simp add: cache_set_def evict_first_def Let_def)
qed

lemma key_of_inj: "key_of i = key_of j \<Longrightarrow> i = j"
proof -
  assume "key_of i = key_of j"
  then have "i div 10 = j div 10" "i mod 10 = j mod 10" by (simp_all add: key_of_def)
  then show "i = j" by (metis div_mult_mod_eq)
qed

lemma full_cache_distinct: "distinct (map fst (cache full_cache))"
  by (auto simp: full_cache_def distinct_map comp_def inj_on_def dest: key_of_inj)

lemma full_cache_length: "length (cache full_cache) = 100"
  by (simp add: full_cache_def)

lemma full_cache_has: "i < 100 \<Longrightarrow> map_has (cache full_cache) (key_of i)"
  by (auto simp: map_has_iff full_cache_def image_iff)

lemma full_cache_hd: "fst (hd (cache full_cache)) = key_of 0"
  by (simp add: full_cache_def upt_rec [of 0 100])

lemma createCacheKey_k01: "createCacheKey (js ''k01'') = key_of 1"
  by (simp add: createCacheKey_def key_of_def pattern_defs regex_eval string_eval class_eval)

lemma key_of_0: "key_of 0 = js ''k00''"
  by (simp add: key_of_def js_def)

lemma createCacheKey_new: "createCacheKey (js ''New Key'') = js ''new_key''"
  by (simp add: createCacheKey_def pattern_defs regex_eval string_eval class_eval)

lemma map_has_tl:
  assumes "distinct (map fst m)" "m \<noteq> []"
  shows "map_has (tl m) k' = (map_has m k' \<and> k' \<noteq> fst (hd m))"
proof -
  from assms(2) obtain k0 v0 m' where m: "m = (k0, v0) # m'"
    by (cases m) auto
  with assms(1) have "tl m = map_delete m k0"
    using map_delete_first [of k0 v0 m'] by simp
  then have "map_has (tl m) k' = map_has (map_delete m k0) k'"
    by simp
  also have "\<dots> = (map_has m k' \<and> k' \<noteq> k0)"
    by (rule map_has_map_delete)
  finally show ?thesis
    by (simp add: m)
qed

lemma cache_set_blank_first:
  assumes "MAX_CACHE_SIZE \<le> length (cache c)" "fst (hd (cache c)) = []"
  shows "cache (cache_set now k d c) =
     map_set (cache c) (createCacheKey k) \<lparr>data = d, timestamp = now, key = createCacheKey k\<rparr>"
proof -
  from assms(1) obtain k0 v0 m where c: "cache c = (k0, v0) # m"
    by (cases "cache c") (auto simp: MAX_CACHE_SIZE_def)
  with assms(2) have "evict_first c = c"
    by (simp add: evict_first_def)
  with assms(1) show ?thesis
    by (simp add: cache_set_def Let_def)
qed

text \<open>
  C3, amended. \<open>set\<close> evicts the single oldest-inserted entry exactly when the map
  holds at least 100 entries and its oldest key is a non-empty string, whether or not
  the canonicalized key being inserted is already present: the new map is the old one
  without its first entry, with the key stored. So every other key stays, and inserting
  a 101st distinct key evicts exactly the first-inserted key. Below capacity, and at
  capacity when the oldest key is the empty string, nothing is evicted: the new map is
  the old one with the key stored.
\<close>

theorem cache_set_eviction:
  assumes "distinct (map fst (cache c))"
  shows "(length (cache c) < MAX_CACHE_SIZE \<longrightarrow>
            cache (cache_set now k d c) =
              map_set (cache c) (createCacheKey k)
                \<lparr>data = d, timestamp = now, key = createCacheKey k\<rparr>) \<and>
         (MAX_CACHE_SIZE \<le> length (cache c) \<and> fst (hd (cache c)) \<noteq> [] \<longrightarrow>
            cache (cache_set now k d c) =
              map_set (tl (cache c)) (createCacheKey k)
                \<lparr>data = d, timestamp = now, key = createCacheKey k\<rparr> \<and>
            (\<forall>k'. map_has (cache (cache_set now k d c)) k' =
                   (map_has (cache c) k' \<and> k' \<noteq> fst (hd (cache c)) \<or> k' = createCacheKey k))) \<and>
         (MAX_CACHE_SIZE \<le> length (cache c) \<and> fst (hd (cache c)) = [] \<longrightarrow>
            cache (cache_set now k d c) =
              map_set (cache c) (createCacheKey k)
                \<lparr>data = d, timestamp = now, key = createCacheKey k\<rparr> \<and>
            (\<forall>k'. map_has (cache (cache_set now k d c)) k' =
                   (map_has (cache c) k' \<or> k' = createCacheKey k)))"
proof (intro conjI impI)
  assume "length (cache c) < MAX_CACHE_SIZE"
  then show "cache (cache_set now k d c) =
      map_set (cache c) (createCacheKey k) \<lparr>data = d, timestamp = now, key = createCacheKey k\<rparr>"
    by (rule cache_set_below)
next
  assume full: "MAX_CACHE_SIZE \<le> length (cache c) \<and> fst (hd (cache c)) \<noteq> []"
  then show eq: "cache (cache_set now k d c) =
      map_set (tl (cache c)) (createCacheKey k) \<lparr>data = d, timestamp = now, key = createCacheKey k\<rparr>"
    using cache_set_full [OF assms] by simp
  from full have "cache c \<noteq> []"
    by (auto simp: MAX_CACHE_SIZE_def)
  then show "\<forall>k'. map_has (cache (cache_set now k d c)) k' =
      (map_has (cache c) k' \<and> k' \<noteq> fst (hd (cache c)) \<or> k' = createCacheKey k)"
    by (simp add: eq map_has_map_set map_has_tl [OF assms])
next
  assume blank: "MAX_CACHE_SIZE \<le> length (cache c) \<and> fst (hd (cache c)) = []"
  then show eq: "cache (cache_set now k d c) =
      map_set (cache c) (createCacheKey k) \<lparr>data = d, timestamp = now, key = createCacheKey k\<rparr>"
    by (simp add: cache_set_blank_first)
  show "\<forall>k'. map_has (cache (cache_set now k d c)) k' =
      (map_has (cache c) k' \<or> k' = createCacheKey k)"
    by (simp add: eq map_has_map_set)
qed

text \<open>
  At the full cache a new key evicts \<open>"k00"\<close> and keeps \<open>"k01"\<close>; at the empty cache
  the key is stored; at the full cache whose oldest key is the empty string the key is
  stored and the empty key stays.
\<close>

definition empty_cache :: "nat PerformanceCache" where
  "empty_cache = \<lparr>cache = [], metrics = initial_metrics\<rparr>"

definition blank_first_cache :: "nat PerformanceCache" where
  "blank_first_cache =
     \<lparr>cache = ([], \<lparr>data = 0, timestamp = 0, key = []\<rparr>) # tl (cache full_cache),
      metrics = initial_metrics\<rparr>"

lemma blank_first_cache_facts:
  "distinct (map fst (cache blank_first_cache))"
  "MAX_CACHE_SIZE \<le> length (cache blank_first_cache)"
  "fst (hd (cache blank_first_cache)) = []"
  "map_has (cache blank_first_cache) []"
proof -
  have "[] \<notin> fst ` set (cache full_cache)"
    by (auto simp: full_cache_def key_of_def)
  moreover have "set (tl (cache full_cache)) \<subseteq> set (cache full_cache)"
    by (cases "cache full_cache") auto
  ultimately have "[] \<notin> fst ` set (tl (cache full_cache))"
    by blast
  moreover have "distinct (map fst (tl (cache full_cache)))"
    using full_cache_distinct by (simp add: map_tl distinct_tl)
  ultimately show "distinct (map fst (cache blank_first_cache))"
    by (simp add: blank_first_cache_def)
  show "MAX_CACHE_SIZE \<le> length (cache blank_first_cache)"
    by (simp add: blank_first_cache_def full_cache_length MAX_CACHE_SIZE_def)
  show "fst (hd (cache blank_first_cache)) = []"
    by (simp add: blank_first_cache_def)
  show "map_has (cache blank_first_cache) []"
    by (simp add: blank_first_cache_def map_has_def)
qed

theorem cache_set_eviction_witness:
  "\<not> map_has (cache (cache_set 1 (js ''New Key'') 7 full_cache)) (js ''k00'') \<and>
   map_has (cache (cache_set 1 (js ''New Key'') 7 full_cache)) (js ''new_key'') \<and>
   map_has (cache (cache_set 1 (js ''New Key'') 7 full_cache)) (key_of 1) \<and>
   map_has (cache (cache_set 1 (js ''New Key'') 7 empty_cache)) (js ''new_key'') \<and>
   map_has (cache (cache_set 1 (js ''New Key'') 7 blank_first_cache)) [] \<and>
   map_has (cache (cache_set 1 (js ''New Key'') 7 blank_first_cache)) (js ''new_key'')"
proof -
  have ne: "js ''k00'' \<noteq> js ''new_key''" "key_of 1 \<noteq> js ''k00''" "js ''k00'' \<noteq> []"
    by (simp_all add: js_def key_of_def)
  have full: "MAX_CACHE_SIZE \<le> length (cache full_cache) \<and> fst (hd (cache full_cache)) \<noteq> []"
    by (simp add: full_cache_length MAX_CACHE_SIZE_def full_cache_hd key_of_0 ne)
  have below: "length (cache empty_cache) < MAX_CACHE_SIZE" "distinct (map fst (cache empty_cache))"
    by (simp_all add: MAX_CACHE_SIZE_def empty_cache_def)
  have "\<forall>k'. map_has (cache (cache_set 1 (js ''New Key'') 7 full_cache)) k' =
      (map_has (cache full_cache) k' \<and> k' \<noteq> fst (hd (cache full_cache)) \<or>
       k' = createCacheKey (js ''New Key''))"
    using cache_set_eviction [OF full_cache_distinct, of 1 "js ''New Key''" 7] full
    by blast
  then have a: "map_has (cache (cache_set 1 (js ''New Key'') 7 full_cache)) k' =
      (map_has (cache full_cache) k' \<and> k' \<noteq> js ''k00'' \<or> k' = js ''new_key'')" for k'
    by (simp add: full_cache_hd key_of_0 createCacheKey_new)
  have b: "cache (cache_set 1 (js ''New Key'') 7 empty_cache) =
      map_set [] (js ''new_key'') \<lparr>data = 7, timestamp = 1, key = js ''new_key''\<rparr>"
    using cache_set_eviction [OF below(2), of 1 "js ''New Key''" 7] below(1)
    by (simp add: createCacheKey_new) (simp add: empty_cache_def)
  have 1: "\<not> map_has (cache (cache_set 1 (js ''New Key'') 7 full_cache)) (js ''k00'')"
    using ne by (simp add: a)
  have 2: "map_has (cache (cache_set 1 (js ''New Key'') 7 full_cache)) (js ''new_key'')"
    by (simp add: a)
  have 3: "map_has (cache (cache_set 1 (js ''New Key'') 7 full_cache)) (key_of 1)"
    using full_cache_has [of 1] ne by (simp add: a)
  have 4: "map_has (cache (cache_set 1 (js ''New Key'') 7 empty_cache)) (js ''new_key'')"
    unfolding b by (simp add: map_has_def)
  have "\<forall>k'. map_has (cache (cache_set 1 (js ''New Key'') 7 blank_first_cache)) k' =
      (map_has (cache blank_first_cache) k' \<or> k' = createCacheKey (js ''New Key''))"
    using cache_set_eviction [OF blank_first_cache_facts(1), of 1 "js ''New Key''" 7]
      blank_first_cache_facts(2,3)
    by blast
  then have c: "map_has (cache (cache_set 1 (js ''New Key'') 7 blank_first_cache)) k' =
      (map_has (cache blank_first_cache) k' \<or> k' = js ''new_key'')" for k'
    by (simp add: createCacheKey_new)
  have 5: "map_has (cache (cache_set 1 (js ''New Key'') 7 blank_first_cache)) []"
    using blank_first_cache_facts(4) by (simp add: c)
  have 6: "map_has (cache (cache_set 1 (js ''New Key'') 7 blank_first_cache)) (js ''new_key'')"
    by (simp add: c)
  show ?thesis
    using 1 2 3 4 5 6 by blast
qed

text \<open>
  C3, as the spec states it: a \<open>set\<close> whose canonicalized key is already present never
  evicts another entry. At the full cache, setting the present key \<open>"k01"\<close> evicts
  \<open>"k00"\<close>.
\<close>

theorem cache_set_present_key_counterexample:
  "map_has (cache full_cache) (createCacheKey (js ''k01'')) \<and>
   map_has (cache full_cache) (js ''k00'') \<and>
   js ''k00'' \<noteq> createCacheKey (js ''k01'') \<and>
   \<not> map_has (cache (cache_set 1 (js ''k01'') 7 full_cache)) (js ''k00'')"
proof -
  have ne: "js ''k00'' \<noteq> key_of 1" "js ''k00'' \<noteq> []"
    by (simp_all add: js_def key_of_def)
  have full: "MAX_CACHE_SIZE \<le> length (cache full_cache)"
    by (simp add: full_cache_length MAX_CACHE_SIZE_def)
  have hd: "fst (hd (cache full_cache)) \<noteq> []"
    by (simp add: full_cache_hd key_of_0 ne)
  have "cache full_cache \<noteq> []"
    using full_cache_length by auto
  then have "\<not> map_has (cache (cache_set 1 (js ''k01'') 7 full_cache)) (js ''k00'')"
    using ne
    by (simp add: cache_set_full [OF full_cache_distinct full hd] map_has_map_set
        map_has_tl [OF full_cache_distinct] full_cache_hd key_of_0 createCacheKey_k01)
  then show ?thesis
    using full_cache_has [of 0] full_cache_has [of 1] ne
    by (simp add: createCacheKey_k01 key_of_0)
qed

section \<open>Facts about the matcher\<close>

lemma first_some_SomeD: "first_some f xs = Some y \<Longrightarrow> \<exists>x\<in>set xs. f x = Some y"
  by (induction xs) (auto split: option.splits)

lemma first_some_None_iff: "first_some f xs = None \<longleftrightarrow> (\<forall>x\<in>set xs. f x = None)"
  by (induction xs) (auto split: option.splits)

lemma first_some_one: "first_some f [x] = f x"
  by (simp split: option.splits)

lemma run_single:
  "run (It (single p) # as) st =
     (case remaining st of [] \<Rightarrow> None | c # cs \<Rightarrow> if p c then run as (advance (Suc 0) st) else None)"
  by (cases "remaining st") (simp_all add: single_def run_length_def first_some_one del: first_some.simps(2))

lemma run_exact:
  "run (It (Cls p n (Some n)) # as) st =
     (if n \<le> length (takeWhile p (remaining st)) then run as (advance n st) else None)"
  by (simp add: run_length_def min_def first_some_one del: first_some.simps(2))

lemma scan_SomeD:
  "scan as p s = Some (m, cs) \<Longrightarrow>
     \<exists>p' s' st. run as (init_state p' s') = Some st \<and> cs = caps st \<and> m = take (consumed st) s'"
  by (induction s arbitrary: p) (auto split: option.splits)

section \<open>parseResolution\<close>

text \<open>A match of \<open>RESOLUTION\<close> captures at least three digits and the letter after them.\<close>

lemma run_RESOLUTION:
  assumes "run RESOLUTION (init_state p s) = Some st"
  shows "\<exists>r. caps st = [r] \<and> 4 \<le> length r"
proof -
  let ?st1 = "init_state p s\<lparr>cur := Some []\<rparr>"
  let ?tl = "[It (chi 0x70), It Close, It WordB]"
  from assms have "first_some (\<lambda>n. run ?tl (advance n ?st1))
      (rev [3..<Suc (run_length is_digit (Some 4) (remaining ?st1))]) = Some st"
    unfolding RESOLUTION_def seq_def list.map run.simps by (simp only: split: if_splits) simp
  then obtain n where n: "n \<in> set (rev [3..<Suc (run_length is_digit (Some 4) (remaining ?st1))])"
      and r: "run ?tl (advance n ?st1) = Some st"
    by (blast dest: first_some_SomeD)
  from n have n3: "3 \<le> n" and "n \<le> run_length is_digit (Some 4) s"
    by (auto simp: init_state_def)
  then have len: "n \<le> length s"
    using length_takeWhile_le [of is_digit s] by (simp add: run_length_def)
  have st2: "advance n ?st1 =
      \<lparr>prior = (if take n s = [] then p else Some (last (take n s))), remaining = drop n s,
       consumed = n, cur = Some (take n s), caps = []\<rparr>"
    by (simp add: advance_def init_state_def Let_def)
  from r obtain c cs where c: "drop n s = c # cs"
    and r2: "run [It Close, It WordB] (advance (Suc 0) (advance n ?st1)) = Some st"
    unfolding chi_def run_single st2 by (auto split: list.splits if_splits)
  have st3: "cur (advance (Suc 0) (advance n ?st1)) = Some (take n s @ [c])"
    "caps (advance (Suc 0) (advance n ?st1)) = []"
    unfolding st2 using c by (simp_all add: advance_def Let_def)
  from r2 have "caps st = [take n s @ [c]]"
    unfolding run.simps by (auto simp: st3 split: if_splits)
  with n3 len show ?thesis by simp
qed

lemma parseResolution_never_4K: "parseResolution name \<noteq> js ''4K''"
proof
  assume a: "parseResolution name = js ''4K''"
  then obtain m r where m: "exec RESOLUTION name = Some m" and r: "capture 1 m = Some r"
    and "r = js ''4K''"
    by (auto simp: parseResolution_def js_def split: option.splits if_splits)
  then have len: "length r = 2" by (simp add: js_def)
  obtain mt cs where mcs: "m = (mt, cs)" by (cases m)
  from m mcs obtain p' s' st where "run RESOLUTION (init_state p' s') = Some st" "cs = caps st"
    unfolding exec_def by (auto dest!: scan_SomeD)
  with run_RESOLUTION obtain r' where "cs = [r']" "4 \<le> length r'" by metis
  with r mcs len show False by (simp add: capture_def)
qed

lemma parseResolution_4K_example: "parseResolution (js ''[Group] Show 4K'') = []"
  by (simp add: parseResolution_def pattern_defs regex_eval string_eval class_eval)

lemma parseResolution_valid:
  "parseResolution name = [] \<or> parseResolution name \<in> set validResolutions"
  by (simp add: parseResolution_def split: option.splits)

text \<open>
  C4. \<open>parseResolution\<close> returns the empty string or a member of \<open>validResolutions\<close>,
  but \<open>"4K"\<close>, which is in that list, is never returned: the pattern matches only
  three or four digits followed by \<open>p\<close>. For the name \<open>"[Group] Show 4K"\<close> the result is
  the empty string.
\<close>

theorem parseResolution_misses_4K:
  "parseResolution (js ''[Group] Show 4K'') = [] \<and>
   (\<forall>name. parseResolution name \<noteq> js ''4K'') \<and>
   (\<forall>name. parseResolution name = [] \<or> parseResolution name \<in> set validResolutions)"
  using parseResolution_4K_example parseResolution_never_4K parseResolution_valid by blast

section \<open>extractEpisodeNumber\<close>

lemmas parser_eval = isBatchTorrent_def range_is_batch_def extractEpisodeNumber_def
  extractionStrategies_def tryExtractFromPattern_def tryExtractFromSeasonEpisode_def
  tryExtractFromIsolatedNumbers_def isValidEpisodeNumber_def isValidEpisodeForIsolation_def
  MIN_EPISODE_NUMBER_def MAX_EPISODE_NUMBER_def MAX_YEAR_def COMMON_RESOLUTIONS_def
  MAX_BATCH_EPISODES_def

lemma episode_example_season: "extractEpisodeNumber (js ''[Group] Show S01E05 (1080p)'') [] = 5"
  by (simp add: parser_eval pattern_defs regex_eval string_eval class_eval)

lemma episode_example_dash: "extractEpisodeNumber (js ''[Group] Show - 07 (1080p)'') [] = 7"
  by (simp add: parser_eval pattern_defs regex_eval string_eval class_eval)

lemma episode_example_1080: "extractEpisodeNumber (js ''Show - 1080 x'') [] = 1080"
  by (simp add: parser_eval pattern_defs regex_eval string_eval class_eval)

lemma episode_example_1080_digits: "filter is_digit (js ''Show - 1080 x'') = js ''1080''"
  by (simp add: string_eval class_eval)

lemma episode_example_batch: "isBatchTorrent (js ''[Group] Show 01-12 (1080p)'') []"
  by (simp add: parser_eval pattern_defs regex_eval string_eval class_eval)

lemma episode_example_fallback:
  "\<not> isBatchTorrent (js ''Show 1080'') []"
  "tryExtractFromPattern [] PORTUGUESE = None"
  "tryExtractFromPattern (js ''Show 1080'') EPISODE_DASH = None"
  "tryExtractFromSeasonEpisode (js ''Show 1080'') = None"
  "tryExtractFromPattern (js ''Show 1080'') ENGLISH = None"
  by (simp_all add: parser_eval pattern_defs regex_eval string_eval class_eval)

lemma first_isolated_valid: "first_isolated ms = Some n \<Longrightarrow> isValidEpisodeForIsolation n"
  by (induction ms) (auto split: option.splits if_splits)

lemma isolated_never_resolution:
  "tryExtractFromIsolatedNumbers name = Some n \<Longrightarrow>
     n \<notin> {480, 720, 1080} \<and> 1 \<le> n \<and> n < 2000"
  by (auto simp: tryExtractFromIsolatedNumbers_def isValidEpisodeForIsolation_def
      isValidEpisodeNumber_def COMMON_RESOLUTIONS_def MAX_YEAR_def MIN_EPISODE_NUMBER_def
      dest!: first_isolated_valid)

lemma extractEpisodeNumber_order:
  "\<not> isBatchTorrent name episodeTitle \<Longrightarrow>
   extractEpisodeNumber name episodeTitle =
     (case tryExtractFromPattern episodeTitle PORTUGUESE of Some r \<Rightarrow> r | None \<Rightarrow>
      case tryExtractFromPattern name EPISODE_DASH of Some r \<Rightarrow> r | None \<Rightarrow>
      case tryExtractFromSeasonEpisode name of Some r \<Rightarrow> r | None \<Rightarrow>
      case tryExtractFromPattern name ENGLISH of Some r \<Rightarrow> r | None \<Rightarrow>
      case tryExtractFromIsolatedNumbers name of Some r \<Rightarrow> r | None \<Rightarrow> - 1)"
  by (simp add: extractEpisodeNumber_def extractionStrategies_def split: option.splits)

text \<open>
  C6, as the spec states it: a name containing only the token 1080 and no other digit
  never yields episode number 1080. The digits of \<open>"Show - 1080 x"\<close> are those of 1080
  alone, and the dash pattern yields 1080.
\<close>

theorem extractEpisodeNumber_1080_counterexample:
  "filter is_digit (js ''Show - 1080 x'') = js ''1080'' \<and>
   extractEpisodeNumber (js ''Show - 1080 x'') [] = 1080"
  using episode_example_1080 episode_example_1080_digits by simp

text \<open>
  C6, amended. \<open>extractEpisodeNumber\<close> returns -1 whenever \<open>isBatchTorrent\<close> holds;
  otherwise it returns the result of the first strategy, in the order Portuguese title,
  dash, season and episode, English, isolated numbers, that yields a number, and -1 when
  none does. The two examples give 5 and 7. The isolated-number strategy never yields
  480, 720, 1080 or a number from 2000 on (what it yields is between 1 and 1999), so
  1080 can only come from one of the four pattern strategies: where those find nothing,
  the result is not 1080.
\<close>

theorem extractEpisodeNumber_priorities:
  "(isBatchTorrent name episodeTitle \<longrightarrow> extractEpisodeNumber name episodeTitle = - 1) \<and>
   (\<not> isBatchTorrent name episodeTitle \<longrightarrow>
      extractEpisodeNumber name episodeTitle =
        (case tryExtractFromPattern episodeTitle PORTUGUESE of Some r \<Rightarrow> r | None \<Rightarrow>
         case tryExtractFromPattern name EPISODE_DASH of Some r \<Rightarrow> r | None \<Rightarrow>
         case tryExtractFromSeasonEpisode name of Some r \<Rightarrow> r | None \<Rightarrow>
         case tryExtractFromPattern name ENGLISH of Some r \<Rightarrow> r | None \<Rightarrow>
         case tryExtractFromIsolatedNumbers name of Some r \<Rightarrow> r | None \<Rightarrow> - 1)) \<and>
   extractEpisodeNumber (js ''[Group] Show S01E05 (1080p)'') [] = 5 \<and>
   extractEpisodeNumber (js ''[Group] Show - 07 (1080p)'') [] = 7 \<and>
   tryExtractFromIsolatedNumbers name \<notin> {Some 480, Some 720, Some 1080} \<and>
   (\<forall>n. tryExtractFromIsolatedNumbers name = Some n \<longrightarrow>
        n \<notin> {480, 720, 1080} \<and> 1 \<le> n \<and> n < 2000) \<and>
   (tryExtractFromPattern episodeTitle PORTUGUESE = None \<and>
    tryExtractFromPattern name EPISODE_DASH = None \<and>
    tryExtractFromSeasonEpisode name = None \<and>
    tryExtractFromPattern name ENGLISH = None \<longrightarrow>
      extractEpisodeNumber name episodeTitle \<noteq> 1080)"
proof (intro conjI impI)
  assume "isBatchTorrent name episodeTitle"
  then show "extractEpisodeNumber name episodeTitle = - 1"
    by (simp add: extractEpisodeNumber_def)
next
  assume "\<not> isBatchTorrent name episodeTitle"
  then show "extractEpisodeNumber name episodeTitle =
        (case tryExtractFromPattern episodeTitle PORTUGUESE of Some r \<Rightarrow> r | None \<Rightarrow>
         case tryExtractFromPattern name EPISODE_DASH of Some r \<Rightarrow> r | None \<Rightarrow>
         case tryExtractFromSeasonEpisode name of Some r \<Rightarrow> r | None \<Rightarrow>
         case tryExtractFromPattern name ENGLISH of Some r \<Rightarrow> r | None \<Rightarrow>
         case tryExtractFromIsolatedNumbers name of Some r \<Rightarrow> r | None \<Rightarrow> - 1)"
    by (rule extractEpisodeNumber_order)
next
  show "extractEpisodeNumber (js ''[Group] Show S01E05 (1080p)'') [] = 5"
    by (rule episode_example_season)
next
  show "extractEpisodeNumber (js ''[Group] Show - 07 (1080p)'') [] = 7"
    by (rule episode_example_dash)
next
  show iso: "tryExtractFromIsolatedNumbers name \<notin> {Some 480, Some 720, Some 1080}"
    using isolated_never_resolution [of name] by auto
  show "\<forall>n. tryExtractFromIsolatedNumbers name = Some n \<longrightarrow>
        n \<notin> {480, 720, 1080} \<and> 1 \<le> n \<and> n < 2000"
    using isolated_never_resolution [of name] by blast
  assume none: "tryExtractFromPattern episodeTitle PORTUGUESE = None \<and>
    tryExtractFromPattern name EPISODE_DASH = None \<and>
    tryExtractFromSeasonEpisode name = None \<and>
    tryExtractFromPattern name ENGLISH = None"
  show "extractEpisodeNumber name episodeTitle \<noteq> 1080"
  proof (cases "isBatchTorrent name episodeTitle")
    case True
    then show ?thesis by (simp add: extractEpisodeNumber_def)
  next
    case False
    then show ?thesis
      using none iso by (auto simp: extractEpisodeNumber_order split: option.splits)
  qed
qed

lemma episode_example_year:
  "tryExtractFromIsolatedNumbers (js ''Show 2024 7'') = Some 7"
  "extractEpisodeNumber (js ''Show 2024'') [] = - 1"
  by (simp_all add: parser_eval pattern_defs regex_eval string_eval class_eval)

text \<open>
  The batch name \<open>"[Group] Show 01-12 (1080p)"\<close> gives -1; for \<open>"Show 1080"\<close> the four
  pattern strategies find nothing and the result is not 1080; the isolated numbers of
  \<open>"Show 2024 7"\<close> give 7 and never 2024, and \<open>"Show 2024"\<close> gives -1.
\<close>

theorem extractEpisodeNumber_priorities_witness:
  "extractEpisodeNumber (js ''[Group] Show 01-12 (1080p)'') [] = - 1 \<and>
   extractEpisodeNumber (js ''Show 1080'') [] \<noteq> 1080 \<and>
   tryExtractFromIsolatedNumbers (js ''Show 2024 7'') = Some 7 \<and>
   tryExtractFromIsolatedNumbers (js ''Show 2024 7'') \<noteq> Some 2024 \<and>
   tryExtractFromIsolatedNumbers (js ''Show 2024'') \<noteq> Some 2024 \<and>
   extractEpisodeNumber (js ''Show 2024'') [] = - 1"
proof -
  have 1: "extractEpisodeNumber (js ''[Group] Show 01-12 (1080p)'') [] = - 1 \<and>
      extractEpisodeNumber (js ''Show 1080'') [] \<noteq> 1080"
    using extractEpisodeNumber_priorities [of "js ''[Group] Show 01-12 (1080p)''" "[]"]
      extractEpisodeNumber_priorities [of "js ''Show 1080''" "[]"]
      episode_example_batch episode_example_fallback
    by blast
  have 2: "tryExtractFromIsolatedNumbers nm \<noteq> Some 2024" for nm
  proof
    assume "tryExtractFromIsolatedNumbers nm = Some 2024"
    then have "(2024::int) < 2000"
      using extractEpisodeNumber_priorities [of nm "[]"] by blast
    then show False by simp
  qed
  show ?thesis
    using 1 2 episode_example_year by blast
qed

section \<open>extractInfoHash\<close>

text \<open>
  The code unit before a position: the last one of what has been passed, or the one
  before the string.
\<close>

definition prior_of :: "jschar option \<Rightarrow> jsstring \<Rightarrow> jschar option" where
  "prior_of p xs = (if xs = [] then p else Some (last xs))"

lemma scan_found:
  "scan as p s = Some (m, cs) \<Longrightarrow>
     \<exists>pre s' st. s = pre @ s' \<and> run as (init_state (prior_of p pre) s') = Some st \<and>
       cs = caps st \<and> m = take (consumed st) s'"
proof (induction s arbitrary: p)
  case Nil
  then show ?case
    by (auto simp: prior_of_def split: option.splits)
next
  case (Cons c s)
  show ?case
  proof (cases "run as (init_state p (c # s))")
    case None
    with Cons.prems have "scan as (Some c) s = Some (m, cs)" by simp
    from Cons.IH [OF this] obtain pre s' st where
      "s = pre @ s'" "run as (init_state (prior_of (Some c) pre) s') = Some st"
      "cs = caps st" "m = take (consumed st) s'" by blast
    moreover have "prior_of (Some c) pre = prior_of p (c # pre)"
      by (simp add: prior_of_def)
    ultimately show ?thesis
      by (intro exI [of _ "c # pre"] exI [of _ s'] exI [of _ st]) simp
  next
    case (Some st)
    with Cons.prems have "cs = caps st" "m = take (consumed st) (c # s)" by simp_all
    with Some show ?thesis
      by (intro exI [of _ "[]"] exI [of _ "c # s"] exI [of _ st]) (simp add: prior_of_def)
  qed
qed

lemma scan_here:
  "run as (init_state p s) = Some st \<Longrightarrow> scan as p s = Some (take (consumed st) s, caps st)"
  by (cases s) simp_all

lemma scan_skip:
  "(\<And>k. k < length pre \<Longrightarrow>
      run as (init_state (prior_of p (take k pre)) (drop k pre @ s)) = None) \<Longrightarrow>
   scan as p (pre @ s) = scan as (prior_of p pre) s"
proof (induction pre arbitrary: p)
  case Nil
  show ?case by (simp add: prior_of_def)
next
  case (Cons c pre)
  from Cons.prems [of 0] have 0: "run as (init_state p (c # pre @ s)) = None"
    by (simp add: prior_of_def)
  have "scan as (Some c) (pre @ s) = scan as (prior_of (Some c) pre) s"
  proof (rule Cons.IH)
    fix k assume "k < length pre"
    then have "run as (init_state (prior_of p (take (Suc k) (c # pre))) (drop (Suc k) (c # pre) @ s)) = None"
      using Cons.prems [of "Suc k"] by simp
    moreover have "prior_of p (take (Suc k) (c # pre)) = prior_of (Some c) (take k pre)"
      by (simp add: prior_of_def)
    ultimately show "run as (init_state (prior_of (Some c) (take k pre)) (drop k pre @ s)) = None"
      by simp
  qed
  moreover have "prior_of (Some c) pre = prior_of p (c # pre)"
    by (simp add: prior_of_def)
  ultimately show ?case using 0 by simp
qed

text \<open>What a match of \<open>INFO_HASH\<close> at a position is.\<close>

lemma take_takeWhile_all:
  "n \<le> length (takeWhile P xs) \<Longrightarrow> list_all P (take n xs) \<and> length (take n xs) = n"
proof (induction xs arbitrary: n)
  case Nil
  then show ?case by simp
next
  case (Cons x xs)
  show ?case
  proof (cases n)
    case 0
    then show ?thesis by simp
  next
    case (Suc k)
    with Cons.prems have "P x" "k \<le> length (takeWhile P xs)"
      by (auto split: if_splits)
    with Cons.IH [of k] Suc show ?thesis by simp
  qed
qed

lemma takeWhile_append_all: "list_all P h \<Longrightarrow> length h \<le> length (takeWhile P (h @ post))"
  by (induction h) simp_all

lemma run_INFO_HASH_Some:
  assumes "run INFO_HASH (init_state p s) = Some st"
  shows "\<exists>tag h post. s = tag @ h @ post \<and> map canonicalize tag = map canonicalize (js ''btih:'') \<and>
           length h = 40 \<and> list_all is_hex h \<and> caps st = [h]"
proof -
  from assms obtain c1 c2 c3 c4 c5 r where s: "s = c1 # c2 # c3 # c4 # c5 # r"
    and c: "eqi 0x62 c1" "eqi 0x74 c2" "eqi 0x69 c3" "eqi 0x68 c4" "eqi 0x3A c5"
    and len: "40 \<le> length (takeWhile is_hex r)"
    and st: "caps st = [take 40 r]"
    by (auto simp: INFO_HASH_def seq_def stri_def chi_def run_single run_exact init_state_def
        advance_def Let_def simp del: run.simps(2) split: list.splits if_splits)
  have "map canonicalize [c1, c2, c3, c4, c5] = map canonicalize (js ''btih:'')"
    using c by (simp add: eqi_def js_def)
  moreover have "s = [c1, c2, c3, c4, c5] @ take 40 r @ drop 40 r"
    by (simp add: s)
  ultimately show ?thesis
    using take_takeWhile_all [OF len] st by blast
qed

lemma run_INFO_HASH_match:
  assumes "map canonicalize tag = map canonicalize (js ''btih:'')" "length h = 40" "list_all is_hex h"
  shows "\<exists>st. run INFO_HASH (init_state p (tag @ h @ post)) = Some st \<and> caps st = [h]"
proof -
  from assms(1) have "length tag = 5"
    using length_map [of canonicalize tag] by (simp add: js_def)
  then obtain c1 c2 c3 c4 c5 where tag: "tag = [c1, c2, c3, c4, c5]"
    by (auto simp: length_Suc_conv eval_nat_numeral)
  with assms(1) have c: "eqi 0x62 c1" "eqi 0x74 c2" "eqi 0x69 c3" "eqi 0x68 c4" "eqi 0x3A c5"
    by (simp_all add: eqi_def js_def)
  have len: "40 \<le> length (takeWhile is_hex (h @ post))"
    using takeWhile_append_all [OF assms(3), of post] assms(2) by simp
  show ?thesis
    using c len assms(2)
    by (simp add: tag INFO_HASH_def seq_def stri_def chi_def run_single run_exact init_state_def
        advance_def Let_def del: run.simps(2))
qed

lemma isValidInfoHash_hex:
  assumes "length h = 40" "list_all is_hex h"
  shows "isValidInfoHash h"
proof -
  have "40 \<le> length (takeWhile is_hex (h @ []))"
    using takeWhile_append_all [OF assms(2), of "[]"] assms(1) by simp
  then have "\<exists>st. run VALID_INFO_HASH (init_state None h) = Some st"
    using assms(1)
    by (simp add: VALID_INFO_HASH_def seq_def run_exact init_state_def advance_def Let_def
        del: run.simps(2))
  then show ?thesis
    by (auto simp: isValidInfoHash_def test_def exec_def dest: scan_here)
qed

lemma extractInfoHash_leftmost:
  assumes valid: "isValidMagnetLink link"
    and link: "link = pre @ tag @ h @ post"
    and tag: "map canonicalize tag = map canonicalize (js ''btih:'')"
    and h: "length h = 40" "list_all is_hex h"
    and leftmost: "\<And>pre' tag' h' post'. link = pre' @ tag' @ h' @ post' \<Longrightarrow>
        map canonicalize tag' = map canonicalize (js ''btih:'') \<Longrightarrow> length h' = 40 \<Longrightarrow>
        list_all is_hex h' \<Longrightarrow> length pre \<le> length pre'"
  shows "extractInfoHash link = h"
proof -
  have none: "run INFO_HASH (init_state (prior_of None (take k pre)) (drop k pre @ tag @ h @ post)) = None"
    if k: "k < length pre" for k
  proof (rule ccontr)
    assume "run INFO_HASH (init_state (prior_of None (take k pre)) (drop k pre @ tag @ h @ post)) \<noteq> None"
    then obtain st where
      "run INFO_HASH (init_state (prior_of None (take k pre)) (drop k pre @ tag @ h @ post)) = Some st"
      by auto
    from run_INFO_HASH_Some [OF this] obtain tag' h' post' where
      d: "drop k pre @ tag @ h @ post = tag' @ h' @ post'"
      and t: "map canonicalize tag' = map canonicalize (js ''btih:'')"
      and h': "length h' = 40" "list_all is_hex h'"
      by blast
    have "link = take k pre @ tag' @ h' @ post'"
      unfolding link using d by (metis append_assoc append_take_drop_id)
    from leftmost [OF this t h'] k show False by simp
  qed
  obtain st where st: "run INFO_HASH (init_state (prior_of None pre) (tag @ h @ post)) = Some st"
    and caps: "caps st = [h]"
    using run_INFO_HASH_match [OF tag h] by blast
  have "exec INFO_HASH link = scan INFO_HASH (prior_of None pre) (tag @ h @ post)"
    unfolding exec_def link using none by (rule scan_skip)
  also have "\<dots> = Some (take (consumed st) (tag @ h @ post), [h])"
    using scan_here [OF st] caps by simp
  finally show ?thesis
    using valid h isValidInfoHash_hex [OF h]
    by (auto simp: extractInfoHash_def capture_def)
qed

lemma extractInfoHash_absent:
  assumes "\<And>pre tag h post. link = pre @ tag @ h @ post \<Longrightarrow> length h = 40 \<Longrightarrow>
      list_all is_hex h \<Longrightarrow> map canonicalize tag \<noteq> map canonicalize (js ''btih:'')"
  shows "extractInfoHash link = []"
proof -
  have "exec INFO_HASH link = None"
  proof (rule ccontr)
    assume "exec INFO_HASH link \<noteq> None"
    then obtain m cs where "scan INFO_HASH None link = Some (m, cs)"
      by (auto simp: exec_def)
    from scan_found [OF this] obtain pre s' st where
      l: "link = pre @ s'" and "run INFO_HASH (init_state (prior_of None pre) s') = Some st"
      by blast
    from run_INFO_HASH_Some [OF this(2)] obtain tag h post where
      "s' = tag @ h @ post" "map canonicalize tag = map canonicalize (js ''btih:'')"
      "length h = 40" "list_all is_hex h"
      by blast
    with l assms [of pre tag h post] show False by simp
  qed
  then show ?thesis by (simp add: extractInfoHash_def)
qed

lemma extractInfoHash_example:
  "extractInfoHash (js ''magnet:?xt=urn:btih:0123456789ABCDEF0123456789ABCDEF01234567&dn=x'') =
     js ''0123456789ABCDEF0123456789ABCDEF01234567''"
  by (simp add: extractInfoHash_def isValidMagnetLink_def isValidInfoHash_def pattern_defs
      regex_eval string_eval class_eval)

lemma extractInfoHash_not_magnet: "extractInfoHash (js ''not a magnet'') = []"
  by (simp add: extractInfoHash_def isValidMagnetLink_def string_eval)

lemma leftmost_without_b:
  assumes nob: "\<forall>c\<in>set pre. canonicalize c \<noteq> 0x42"
    and eq: "pre @ rest = pre' @ tag' @ rest'"
    and tag: "map canonicalize tag' = map canonicalize (js ''btih:'')"
  shows "length pre \<le> length pre'"
proof (rule ccontr)
  assume "\<not> length pre \<le> length pre'"
  then have lt: "length pre' < length pre" by simp
  from tag obtain c cs where t: "tag' = c # cs" and c: "canonicalize c = 0x42"
    by (cases tag') (auto simp: js_def canonicalize_def in_range_def)
  have "(pre @ rest) ! length pre' = c"
    unfolding eq t by simp
  with lt have "pre ! length pre' = c"
    by (simp add: nth_append)
  with lt have "c \<in> set pre"
    using nth_mem by blast
  with nob c show False by blast
qed

text \<open>
  C2, as the spec states it: for the magnet link with the upper-case hash the result is
  the lower-cased hash. The result is the hash as written, in upper case.
\<close>

theorem extractInfoHash_case_counterexample:
  "extractInfoHash (js ''magnet:?xt=urn:btih:0123456789ABCDEF0123456789ABCDEF01234567&dn=x'') \<noteq>
     js ''0123456789abcdef0123456789abcdef01234567''"
  unfolding extractInfoHash_example by (simp add: js_def)

text \<open>
  C2, amended. For an input that is not a well-formed magnet link \<open>extractInfoHash\<close>
  returns the empty string. For a well-formed one that contains \<open>btih:\<close> (in any case)
  followed by 40 hex digits it returns the 40 digits of the leftmost such occurrence, in
  the case they are written in; without such an occurrence it returns the empty string.
  For the link of the example the result is the upper-case hash.
\<close>

theorem extractInfoHash_first_hash:
  "(\<not> isValidMagnetLink link \<longrightarrow> extractInfoHash link = []) \<and>
   (isValidMagnetLink link \<and> link = pre @ tag @ h @ post \<and>
    map canonicalize tag = map canonicalize (js ''btih:'') \<and> length h = 40 \<and> list_all is_hex h \<and>
    (\<forall>pre' tag' h' post'.
        link = pre' @ tag' @ h' @ post' \<and> map canonicalize tag' = map canonicalize (js ''btih:'') \<and>
        length h' = 40 \<and> list_all is_hex h' \<longrightarrow> length pre \<le> length pre') \<longrightarrow>
      extractInfoHash link = h) \<and>
   ((\<forall>pre' tag' h' post'.
        link = pre' @ tag' @ h' @ post' \<and> length h' = 40 \<and> list_all is_hex h' \<longrightarrow>
        map canonicalize tag' \<noteq> map canonicalize (js ''btih:'')) \<longrightarrow>
      extractInfoHash link = []) \<and>
   extractInfoHash (js ''magnet:?xt=urn:btih:0123456789ABCDEF0123456789ABCDEF01234567&dn=x'') =
     js ''0123456789ABCDEF0123456789ABCDEF01234567'' \<and>
   extractInfoHash (js ''not a magnet'') = []"
proof (intro conjI impI)
  assume "\<not> isValidMagnetLink link"
  then show "extractInfoHash link = []"
    by (simp add: extractInfoHash_def)
next
  assume a: "isValidMagnetLink link \<and> link = pre @ tag @ h @ post \<and>
    map canonicalize tag = map canonicalize (js ''btih:'') \<and> length h = 40 \<and> list_all is_hex h \<and>
    (\<forall>pre' tag' h' post'.
        link = pre' @ tag' @ h' @ post' \<and> map canonicalize tag' = map canonicalize (js ''btih:'') \<and>
        length h' = 40 \<and> list_all is_hex h' \<longrightarrow> length pre \<le> length pre')"
  show "extractInfoHash link = h"
  proof (rule extractInfoHash_leftmost)
    show "isValidMagnetLink link" "link = pre @ tag @ h @ post"
      "map canonicalize tag = map canonicalize (js ''btih:'')" "length h = 40" "list_all is_hex h"
      using a by blast+
    fix pre' tag' h' post'
    assume "link = pre' @ tag' @ h' @ post'"
      "map canonicalize tag' = map canonicalize (js ''btih:'')" "length h' = 40" "list_all is_hex h'"
    with a show "length pre \<le> length pre'" by blast
  qed
next
  assume "\<forall>pre' tag' h' post'.
        link = pre' @ tag' @ h' @ post' \<and> length h' = 40 \<and> list_all is_hex h' \<longrightarrow>
        map canonicalize tag' \<noteq> map canonicalize (js ''btih:'')"
  then show "extractInfoHash link = []"
    by (intro extractInfoHash_absent) blast
next
  show "extractInfoHash (js ''magnet:?xt=urn:btih:0123456789ABCDEF0123456789ABCDEF01234567&dn=x'') =
     js ''0123456789ABCDEF0123456789ABCDEF01234567''"
    by (rule extractInfoHash_example)
next
  show "extractInfoHash (js ''not a magnet'') = []"
    by (rule extractInfoHash_not_magnet)
qed

text \<open>
  A link with the tag in upper case and a hash in mixed case gives the hash unchanged;
  the same hash without the \<open>magnet:?\<close> prefix gives the empty string.
\<close>

theorem extractInfoHash_first_hash_witness:
  "extractInfoHash (js ''magnet:?xt=urn:BTIH:00112233445566778899aAbBcCdDeEfF00112233&dn=x'') =
     js ''00112233445566778899aAbBcCdDeEfF00112233'' \<and>
   extractInfoHash (js ''btih:00112233445566778899aAbBcCdDeEfF00112233'') = []"
proof -
  let ?pre = "js ''magnet:?xt=urn:''" and ?tag = "js ''BTIH:''"
    and ?h = "js ''00112233445566778899aAbBcCdDeEfF00112233''" and ?post = "js ''&dn=x''"
  let ?link = "js ''magnet:?xt=urn:BTIH:00112233445566778899aAbBcCdDeEfF00112233&dn=x''"
  have link: "?link = ?pre @ ?tag @ ?h @ ?post"
    by (simp add: js_def)
  have valid: "isValidMagnetLink ?link"
    by (simp add: isValidMagnetLink_def string_eval)
  have tag: "map canonicalize ?tag = map canonicalize (js ''btih:'')"
    by (simp add: js_def class_eval)
  have h: "length ?h = 40" "list_all is_hex ?h"
    by (simp_all add: js_def class_eval)
  have nob: "\<forall>c\<in>set ?pre. canonicalize c \<noteq> 0x42"
    by (simp add: js_def class_eval)
  have leftmost: "\<forall>pre' tag' h' post'.
        ?link = pre' @ tag' @ h' @ post' \<and> map canonicalize tag' = map canonicalize (js ''btih:'') \<and>
        length h' = 40 \<and> list_all is_hex h' \<longrightarrow> length ?pre \<le> length pre'"
    unfolding link using leftmost_without_b [OF nob] by blast
  have invalid: "\<not> isValidMagnetLink (js ''btih:00112233445566778899aAbBcCdDeEfF00112233'')"
    by (simp add: isValidMagnetLink_def string_eval)
  show ?thesis
    using extractInfoHash_first_hash [of ?link ?pre ?tag ?h ?post]
      extractInfoHash_first_hash [of "js ''btih:00112233445566778899aAbBcCdDeEfF00112233''"]
      link valid tag h leftmost invalid
    by blast
qed

section \<open>The Levenshtein distance is a metric\<close>

text \<open>
  The classic unit-cost edit distance, by its textbook recursion: the cheapest of a
  substitution (free when the heads agree), an insertion and a deletion.
\<close>

fun edit_distance :: "'a list \<Rightarrow> 'a list \<Rightarrow> int" where
  "edit_distance [] ys = int (length ys)"
| "edit_distance (x # xs) [] = int (length (x # xs))"
| "edit_distance (x # xs) (y # ys) =
     min3 (edit_distance xs ys + (if x = y then 0 else 1))
          (edit_distance (x # xs) ys + 1)
          (edit_distance xs (y # ys) + 1)"

text \<open>
  The recurrence of \<open>calculate\<close>'s inner loop, as a recursive function: equal heads take
  the diagonal value alone.
\<close>

fun lev :: "'a list \<Rightarrow> 'a list \<Rightarrow> int" where
  "lev [] ys = int (length ys)"
| "lev (x # xs) [] = int (length (x # xs))"
| "lev (x # xs) (y # ys) =
     (if x = y then lev xs ys
      else min3 (lev xs ys + 1) (lev (x # xs) ys + 1) (lev xs (y # ys) + 1))"

lemma edit_distance_Nil2 [simp]: "edit_distance xs [] = int (length xs)"
  by (cases xs) simp_all

lemma edit_distance_nonneg: "0 \<le> edit_distance xs ys"
  by (induction xs ys rule: edit_distance.induct) (simp_all add: min3_def)

lemma edit_distance_refl: "edit_distance xs xs = 0"
proof (induction xs)
  case Nil
  show ?case by simp
next
  case (Cons x xs)
  have "0 \<le> edit_distance (x # xs) xs" "0 \<le> edit_distance xs (x # xs)"
    by (rule edit_distance_nonneg)+
  with Cons show ?case by (simp add: min3_def)
qed

lemma edit_distance_sym: "edit_distance xs ys = edit_distance ys xs"
  by (induction xs ys rule: edit_distance.induct) (auto simp: min3_def min.commute min.left_commute eq_commute)

lemma edit_distance_length_le: "int (length ys) \<le> int (length xs) + edit_distance xs ys"
  by (induction xs ys rule: edit_distance.induct) (auto simp: min3_def)

lemma edit_distance_le_sum: "edit_distance xs ys \<le> int (length xs) + int (length ys)"
  by (induction xs ys rule: edit_distance.induct) (auto simp: min3_def)

lemma edit_distance_triangle:
  "edit_distance xs zs \<le> edit_distance xs ys + edit_distance ys zs"
proof (induction "length xs + length ys + length zs" arbitrary: xs ys zs rule: less_induct)
  case less
  show ?case
  proof (cases xs)
    case Nil
    then show ?thesis using edit_distance_length_le [of zs ys] by simp
  next
    case xs: (Cons x xs')
    show ?thesis
    proof (cases zs)
      case Nil
      then show ?thesis
        using edit_distance_length_le [of xs ys] by (simp add: edit_distance_sym [of xs ys])
    next
      case zs: (Cons z zs')
      show ?thesis
      proof (cases ys)
        case Nil
        then show ?thesis using edit_distance_le_sum [of xs zs] by simp
      next
        case ys: (Cons y ys')
        define exy :: int where "exy = (if x = y then 0 else 1)"
        define eyz :: int where "eyz = (if y = z then 0 else 1)"
        define exz :: int where "exz = (if x = z then 0 else 1)"
        have c: "exz \<le> exy + eyz"
          by (simp add: exy_def eyz_def exz_def)
        have 1: "edit_distance xs' (z # zs') \<le> edit_distance xs' (y # ys') + edit_distance (y # ys') (z # zs')"
          by (rule less) (simp add: xs ys zs)
        have 2: "edit_distance (x # xs') zs' \<le> edit_distance (x # xs') (y # ys') + edit_distance (y # ys') zs'"
          by (rule less) (simp add: xs ys zs)
        have 3: "edit_distance (x # xs') (z # zs') \<le> edit_distance (x # xs') ys' + edit_distance ys' (z # zs')"
          by (rule less) (simp add: xs ys zs)
        have 4: "edit_distance (x # xs') zs' \<le> edit_distance (x # xs') ys' + edit_distance ys' zs'"
          by (rule less) (simp add: xs ys zs)
        have 5: "edit_distance xs' (z # zs') \<le> edit_distance xs' ys' + edit_distance ys' (z # zs')"
          by (rule less) (simp add: xs ys zs)
        have 6: "edit_distance xs' zs' \<le> edit_distance xs' ys' + edit_distance ys' zs'"
          by (rule less) (simp add: xs ys zs)
        have a: "edit_distance (x # xs') (z # zs') \<le> edit_distance xs' (z # zs') + 1"
          "edit_distance (x # xs') (z # zs') \<le> edit_distance (x # xs') zs' + 1"
          "edit_distance (x # xs') (z # zs') \<le> edit_distance xs' zs' + exz"
          by (simp_all add: min3_def exz_def)
        have A: "edit_distance (x # xs') (y # ys') = edit_distance xs' (y # ys') + 1 \<or>
                 edit_distance (x # xs') (y # ys') = edit_distance (x # xs') ys' + 1 \<or>
                 edit_distance (x # xs') (y # ys') = edit_distance xs' ys' + exy"
          by (simp add: min3_def min_def exy_def)
        have B: "edit_distance (y # ys') (z # zs') = edit_distance ys' (z # zs') + 1 \<or>
                 edit_distance (y # ys') (z # zs') = edit_distance (y # ys') zs' + 1 \<or>
                 edit_distance (y # ys') (z # zs') = edit_distance ys' zs' + eyz"
          by (simp add: min3_def min_def eyz_def)
        have e: "0 \<le> exy" "0 \<le> eyz"
          by (simp_all add: exy_def eyz_def)
        have "edit_distance (x # xs') (z # zs') \<le>
            edit_distance (x # xs') (y # ys') + edit_distance (y # ys') (z # zs')"
          using A B 1 2 3 4 5 6 a c e by (elim disjE) linarith+
        then show ?thesis
          by (simp only: xs ys zs)
      qed
    qed
  qed
qed

lemma edit_distance_Cons_self: "edit_distance (x # xs) xs \<le> 1"
proof (cases xs)
  case Nil
  then show ?thesis by simp
next
  case (Cons y ys)
  have "edit_distance (x # y # ys) (y # ys) \<le> edit_distance (y # ys) (y # ys) + 1"
    unfolding edit_distance.simps min3_def by simp
  then show ?thesis
    unfolding Cons using edit_distance_refl [of "y # ys"] by simp
qed

lemma edit_distance_drop_left: "edit_distance xs ys \<le> edit_distance (x # xs) ys + 1"
  using edit_distance_triangle [of xs ys "x # xs"] edit_distance_Cons_self [of x xs]
  by (simp add: edit_distance_sym [of xs "x # xs"])

lemma edit_distance_drop_right: "edit_distance xs ys \<le> edit_distance xs (y # ys) + 1"
  using edit_distance_drop_left [of ys xs y] by (simp add: edit_distance_sym)

lemma lev_edit_distance: "lev xs ys = edit_distance xs ys"
proof (induction xs ys rule: lev.induct)
  case (1 ys)
  show ?case by simp
next
  case (2 x xs)
  show ?case by simp
next
  case (3 x xs y ys)
  show ?case
  proof (cases "x = y")
    case True
    then show ?thesis
      using 3 edit_distance_drop_left [of xs ys y] edit_distance_drop_right [of xs ys y]
      by (simp add: min3_def)
  next
    case False
    then show ?thesis using 3 by simp
  qed
qed

text \<open>
  The value the matrix holds at row \<open>i\<close> and column \<open>j\<close>: the distance between the
  first \<open>i\<close> code units of \<open>b\<close> and the first \<open>j\<close> of \<open>a\<close>.
\<close>

definition prefix_lev :: "jsstring \<Rightarrow> jsstring \<Rightarrow> nat \<Rightarrow> nat \<Rightarrow> int" where
  "prefix_lev a b i j = lev (rev (take i b)) (rev (take j a))"

lemma lev_Nil2: "lev xs [] = int (length xs)"
  by (cases xs) simp_all

lemma prefix_lev_0: "j \<le> length a \<Longrightarrow> prefix_lev a b 0 j = int j"
  by (simp add: prefix_lev_def)

lemma prefix_lev_i0: "i \<le> length b \<Longrightarrow> prefix_lev a b i 0 = int i"
  by (simp add: prefix_lev_def lev_Nil2)

lemma prefix_lev_Suc:
  "i < length b \<Longrightarrow> j < length a \<Longrightarrow>
   prefix_lev a b (Suc i) (Suc j) =
     (if b ! i = a ! j then prefix_lev a b i j
      else min3 (prefix_lev a b i j + 1) (prefix_lev a b (Suc i) j + 1)
             (prefix_lev a b i (Suc j) + 1))"
  by (simp add: prefix_lev_def take_Suc_conv_app_nth)

lemma first_row:
  assumes "m \<noteq> []" "m ! 0 = [0]"
  shows "fold init_cell [0..<Suc n] m = m[0 := map int [0..<Suc n]]"
proof (induction n)
  case 0
  show ?case using assms by (simp add: init_cell_def cell_set_def arr_set_def)
next
  case (Suc n)
  have "fold init_cell [0..<Suc (Suc n)] m = init_cell (Suc n) (fold init_cell [0..<Suc n] m)"
    by (simp del: upt_Suc add: upt_Suc_append)
  also have "\<dots> = cell_set (m[0 := map int [0..<Suc n]]) 0 (Suc n) (int (Suc n))"
    unfolding Suc by (simp only: init_cell_def)
  also have "\<dots> = m[0 := map int [0..<Suc (Suc n)]]"
    using assms(1) by (simp add: cell_set_def arr_set_def)
  finally show ?case .
qed

lemma fill_row_prefix:
  assumes k: "Suc k \<le> length b" "Suc k < length m"
    and above: "m ! k = map (prefix_lev a b k) [0..<Suc (length a)]"
    and row: "m ! Suc k = [int (Suc k)]"
    and n: "n \<le> length a"
  shows "fold (fill_cell a b (Suc k)) [1..<Suc n] m =
           m[Suc k := map (prefix_lev a b (Suc k)) [0..<Suc n]]"
  using n
proof (induction n)
  case 0
  have "m[Suc k := [int (Suc k)]] = m"
    using row by (metis list_update_id)
  then show ?case using k by (simp add: prefix_lev_i0)
next
  case (Suc n)
  let ?m = "m[Suc k := map (prefix_lev a b (Suc k)) [0..<Suc n]]"
  from Suc.prems have n: "n < length a" by simp
  have mi: "?m ! Suc k = map (prefix_lev a b (Suc k)) [0..<Suc n]"
    using k by simp
  have mu: "?m ! k = map (prefix_lev a b k) [0..<Suc (length a)]"
    using above by simp
  have r1: "?m ! k ! n = prefix_lev a b k n"
    unfolding mu using n by (simp del: upt_Suc)
  have r2: "?m ! Suc k ! n = prefix_lev a b (Suc k) n"
    unfolding mi by (simp del: upt_Suc)
  have r3: "?m ! k ! Suc n = prefix_lev a b k (Suc n)"
    unfolding mu using n by (simp del: upt_Suc)
  have "cell a b ?m (Suc k) (Suc n) =
     (if b ! k = a ! n then prefix_lev a b k n
      else min3 (prefix_lev a b k n + 1) (prefix_lev a b (Suc k) n + 1)
             (prefix_lev a b k (Suc n) + 1))"
    unfolding cell_def diff_Suc_1 r1 r2 r3 ..
  also have "\<dots> = prefix_lev a b (Suc k) (Suc n)"
    using k n by (intro prefix_lev_Suc [symmetric]) simp_all
  finally have c: "cell a b ?m (Suc k) (Suc n) = prefix_lev a b (Suc k) (Suc n)" .
  have "fold (fill_cell a b (Suc k)) [1..<Suc (Suc n)] m =
        fill_cell a b (Suc k) (Suc n) (fold (fill_cell a b (Suc k)) [1..<Suc n] m)"
    by (simp del: upt_Suc add: upt_Suc_append)
  also have "\<dots> = fill_cell a b (Suc k) (Suc n) ?m"
    using Suc by simp
  also have "\<dots> = cell_set ?m (Suc k) (Suc n) (cell a b ?m (Suc k) (Suc n))"
    by (simp only: fill_cell_def)
  also have "\<dots> = m[Suc k := map (prefix_lev a b (Suc k)) [0..<Suc (Suc n)]]"
    unfolding c cell_set_def mi by (simp add: arr_set_def)
  finally show ?case .
qed

text \<open>The matrix after the rows up to \<open>n\<close> have been filled.\<close>

definition filled :: "jsstring \<Rightarrow> jsstring \<Rightarrow> nat \<Rightarrow> int list list" where
  "filled a b n =
     map (\<lambda>i. if i \<le> n then map (prefix_lev a b i) [0..<Suc (length a)] else [int i])
       [0..<Suc (length b)]"

lemma filled_nth:
  "i \<le> length b \<Longrightarrow>
   filled a b n ! i = (if i \<le> n then map (prefix_lev a b i) [0..<Suc (length a)] else [int i])"
  unfolding filled_def by (simp del: upt_Suc)

lemma length_filled: "length (filled a b n) = Suc (length b)"
  by (simp add: filled_def)

lemma init_filled:
  "fold init_cell [0..<Suc (length a)] (map (\<lambda>i. [int i]) [0..<Suc (length b)])
     = filled a b 0"
proof -
  let ?m = "map (\<lambda>i. [int i]) [0..<Suc (length b)]"
  have m0: "?m \<noteq> []" "?m ! 0 = [0]"
    by (simp_all del: upt_Suc add: upt_conv_Cons)
  have row0: "map int [0..<Suc (length a)] = map (prefix_lev a b 0) [0..<Suc (length a)]"
    by (rule map_cong) (auto simp: prefix_lev_0)
  have "?m[0 := map int [0..<Suc (length a)]] = filled a b 0"
  proof (rule nth_equalityI)
    show "length (?m[0 := map int [0..<Suc (length a)]]) = length (filled a b 0)"
      by (simp add: length_filled)
  next
    fix i assume "i < length (?m[0 := map int [0..<Suc (length a)]])"
    then have i: "i \<le> length b" by simp
    show "?m[0 := map int [0..<Suc (length a)]] ! i = filled a b 0 ! i"
    proof (cases i)
      case 0
      then show ?thesis
        unfolding filled_nth [OF i] using row0 by (simp del: upt_Suc)
    next
      case (Suc k)
      then show ?thesis
        unfolding filled_nth [OF i] using i by (simp del: upt_Suc)
    qed
  qed
  then show ?thesis
    unfolding first_row [OF m0] .
qed

lemma rows_filled:
  "n \<le> length b \<Longrightarrow> fold (fill_row a b) [1..<Suc n] (filled a b 0) = filled a b n"
proof (induction n)
  case 0
  show ?case by simp
next
  case (Suc n)
  let ?m = "filled a b n"
  from Suc.prems have n: "Suc n \<le> length b" "n \<le> length b" by simp_all
  have "fold (fill_row a b) [1..<Suc (Suc n)] (filled a b 0) = fill_row a b (Suc n) ?m"
    using Suc by (simp del: upt_Suc add: upt_Suc_append)
  also have "\<dots> = ?m[Suc n := map (prefix_lev a b (Suc n)) [0..<Suc (length a)]]"
    unfolding fill_row_def
  proof (rule fill_row_prefix)
    show "Suc n \<le> length b" by (rule n)
    show "Suc n < length ?m" using n by (simp add: length_filled)
    show "?m ! n = map (prefix_lev a b n) [0..<Suc (length a)]"
      unfolding filled_nth [OF n(2)] by simp
    show "?m ! Suc n = [int (Suc n)]"
      unfolding filled_nth [OF n(1)] by simp
    show "length a \<le> length a" by simp
  qed
  also have "\<dots> = filled a b (Suc n)"
  proof (rule nth_equalityI)
    show "length (?m[Suc n := map (prefix_lev a b (Suc n)) [0..<Suc (length a)]]) =
        length (filled a b (Suc n))"
      by (simp add: length_filled)
  next
    fix i assume "i < length (?m[Suc n := map (prefix_lev a b (Suc n)) [0..<Suc (length a)]])"
    then have i: "i \<le> length b" by (simp add: length_filled)
    show "?m[Suc n := map (prefix_lev a b (Suc n)) [0..<Suc (length a)]] ! i =
        filled a b (Suc n) ! i"
    proof (cases "i = Suc n")
      case True
      then show ?thesis
        unfolding filled_nth [OF i] using n by (simp add: length_filled del: upt_Suc)
    next
      case False
      then show ?thesis
        unfolding filled_nth [OF i] by (auto simp: filled_nth [OF i] simp del: upt_Suc)
    qed
  qed
  finally show ?case .
qed

lemma lev_nonneg: "0 \<le> lev xs ys"
  by (induction xs ys rule: lev.induct) (simp_all add: min3_def)

lemma calculate_lev: "calculate a b = lev (rev b) (rev a)"
proof -
  have "fold (fill_row a b) [1..<Suc (length b)]
          (fold init_cell [0..<Suc (length a)]
             (map (\<lambda>i. [int i]) [0..<Suc (length b)])) = filled a b (length b)"
    unfolding init_filled by (rule rows_filled) simp
  moreover have "filled a b (length b) ! length b ! length a = prefix_lev a b (length b) (length a)"
    unfolding filled_nth [OF order_refl] by (simp del: upt_Suc)
  moreover have "prefix_lev a b (length b) (length a) = lev (rev b) (rev a)"
    by (simp add: prefix_lev_def)
  ultimately show ?thesis
    unfolding calculate_def Let_def isValidStringDistance_def
    using lev_nonneg [of "rev b" "rev a"] by (simp only: if_True)
qed

lemma calculate_eval:
  "calculate a b =
     max 0 (fold (fill_row a b) [1..<Suc (length b)]
              (fold init_cell [0..<Suc (length a)] (map (\<lambda>i. [int i]) [0..<Suc (length b)]))
            ! length b ! length a)"
  by (simp add: calculate_def Let_def isValidStringDistance_def max_def)

lemma calculate_kitten: "calculate (js ''kitten'') (js ''sitting'') = 3"
  by (simp add: calculate_eval fill_row_def init_cell_def fill_cell_def cell_set_def cell_def
      arr_set_def min3_def js_def)

lemma calculate_edit_distance: "calculate a b = edit_distance (rev b) (rev a)"
  by (simp add: calculate_lev lev_edit_distance)

text \<open>
  C8. \<open>calculate\<close> is the classic unit-cost edit distance (of the reversed strings, as
  the matrix works on prefixes) and a metric: the distance from a string to itself is 0,
  the distance is symmetric, the triangle inequality holds, and the distance between
  \<open>"kitten"\<close> and \<open>"sitting"\<close> is 3.
\<close>

theorem calculate_metric:
  "calculate a a = 0 \<and>
   calculate a b = calculate b a \<and>
   calculate a c \<le> calculate a b + calculate b c \<and>
   calculate (js ''kitten'') (js ''sitting'') = 3 \<and>
   calculate a b = edit_distance (rev a) (rev b)"
proof (intro conjI)
  show "calculate a a = 0"
    by (simp add: calculate_edit_distance edit_distance_refl)
  show "calculate a b = calculate b a"
    unfolding calculate_edit_distance by (rule edit_distance_sym)
  show "calculate a c \<le> calculate a b + calculate b c"
    unfolding calculate_edit_distance
    using edit_distance_triangle [of "rev c" "rev a" "rev b"] by simp
  show "calculate (js ''kitten'') (js ''sitting'') = 3"
    by (rule calculate_kitten)
  show "calculate a b = edit_distance (rev a) (rev b)"
    unfolding calculate_edit_distance by (rule edit_distance_sym)
qed

theorem calculate_metric_witness:
  "calculate (js ''flaw'') (js ''flaw'') = 0 \<and>
   calculate (js ''flaw'') (js ''lawn'') = calculate (js ''lawn'') (js ''flaw'') \<and>
   calculate (js ''flaw'') (js ''lawn'') \<le>
     calculate (js ''flaw'') (js ''law'') + calculate (js ''law'') (js ''lawn'')"
  using calculate_metric [of "js ''flaw''" "js ''lawn''" "js ''lawn''"]
    calculate_metric [of "js ''flaw''" "js ''law''" "js ''lawn''"]
  by blast

section \<open>Normalizing twice\<close>

text \<open>
  The steps of \<open>normalize\<close> after lower-casing and trimming: the character table, the
  title variations and the white-space step.
\<close>

definition character_step :: "jsstring \<Rightarrow> jsstring" where
  "character_step r =
     fold (\<lambda>(from, to) r. replace_all (seq [ch from]) [Lit [to]] r) CHARACTER_NORMALIZATIONS r"

definition variation_step :: "jsstring \<Rightarrow> jsstring" where
  "variation_step r = fold (\<lambda>(from, to) r. replace_all from to r) ANIME_TITLE_VARIATIONS r"

definition space_step :: "jsstring \<Rightarrow> jsstring" where
  "space_step r = trim (replace_all SPACES [Lit (js '' '')] r)"

lemma normalize_steps:
  "normalize s = space_step (variation_step (character_step (trim (toLowerCase s))))"
  by (simp add: normalize_def character_step_def variation_step_def space_step_def)

text \<open>Replacing one character by another, all over a string, is a map.\<close>

definition swap_char :: "jschar \<times> jschar \<Rightarrow> jschar \<Rightarrow> jschar" where
  "swap_char e x = (if x = fst e then snd e else x)"

lemma greplace_char:
  "greplace [It (single (eqc c))] [Lit [d]] p 0 s = map (swap_char (c, d)) s"
proof (induction s arbitrary: p)
  case Nil
  show ?case
    by (simp add: run_single init_state_def del: run.simps(2))
next
  case (Cons x s)
  have e: "eqc c x = (x = c)"
    by (simp add: eqc_def)
  have w: "swap_char (c, d) x = (if x = c then d else x)"
    by (simp add: swap_char_def)
  show ?case
    by (simp add: run_single init_state_def advance_def e w expand_def Cons
        del: run.simps(2))
qed

lemma fold_map_swap: "fold (\<lambda>e. map (swap_char e)) tbl r = map (fold swap_char tbl) r"
  by (induction tbl arbitrary: r) (simp_all add: comp_def)

lemma character_step_map: "character_step r = map (fold swap_char CHARACTER_NORMALIZATIONS) r"
proof -
  have "(\<lambda>(from, to) r. replace_all (seq [ch from]) [Lit [to]] r) = (\<lambda>e. map (swap_char e))"
    by (auto simp: fun_eq_iff replace_all_def seq_def ch_def greplace_char)
  then show ?thesis
    unfolding character_step_def by (simp only: fold_map_swap)
qed

lemma fold_swap_id: "x \<notin> fst ` set tbl \<Longrightarrow> fold swap_char tbl x = x"
  by (induction tbl arbitrary: x) (auto simp: swap_char_def)

lemma fold_swap_avoid: "x \<noteq> f \<Longrightarrow> f \<notin> snd ` set tbl \<Longrightarrow> fold swap_char tbl x \<noteq> f"
  by (induction tbl arbitrary: x) (auto simp: swap_char_def)

lemma fold_swap_clean:
  "distinct (map fst tbl) \<Longrightarrow> snd ` set tbl \<inter> F = {} \<Longrightarrow> fst ` set tbl \<subseteq> F \<Longrightarrow>
   fold swap_char tbl x \<notin> fst ` set tbl"
proof (induction tbl arbitrary: x)
  case Nil
  show ?case by simp
next
  case (Cons e tbl)
  obtain c d where e: "e = (c, d)" by (cases e)
  let ?x = "swap_char e x"
  from Cons.prems e have d: "d \<notin> F" "c \<in> F" by auto
  then have "?x \<noteq> c" by (auto simp: swap_char_def e)
  moreover from Cons.prems e d have "c \<notin> snd ` set tbl" by auto
  ultimately have "fold swap_char tbl ?x \<noteq> c" by (rule fold_swap_avoid)
  moreover have "fold swap_char tbl ?x \<notin> fst ` set tbl"
    using Cons.prems by (intro Cons.IH) auto
  ultimately show ?case by (simp add: e)
qed

lemma table_facts:
  "distinct (map fst CHARACTER_NORMALIZATIONS)"
  "snd ` set CHARACTER_NORMALIZATIONS \<inter> fst ` set CHARACTER_NORMALIZATIONS = {}"
  by (simp_all add: CHARACTER_NORMALIZATIONS_def)

lemma character_step_clean:
  "x \<in> set (character_step r) \<Longrightarrow> x \<notin> fst ` set CHARACTER_NORMALIZATIONS"
  unfolding character_step_map
  using fold_swap_clean [OF table_facts order_refl] by auto

lemma character_step_id:
  "set r \<inter> fst ` set CHARACTER_NORMALIZATIONS = {} \<Longrightarrow> character_step r = r"
  unfolding character_step_map by (intro map_idI fold_swap_id) auto

text \<open>
  A replacement only yields code units of the string it works on, or of its template:
  what the matcher captures is taken from the string it runs on.
\<close>

definition seen :: "mstate \<Rightarrow> jschar set" where
  "seen st = \<Union> (set ` set (caps st)) \<union> (case cur st of None \<Rightarrow> {} | Some acc \<Rightarrow> set acc)"

lemma advance_seen: "seen (advance n st) \<union> set (remaining (advance n st)) \<subseteq> seen st \<union> set (remaining st)"
  by (cases "cur st")
    (auto simp: seen_def advance_def Let_def dest: in_set_takeD in_set_dropD)

lemma run_seen: "run as st = Some st' \<Longrightarrow> seen st' \<subseteq> seen st \<union> set (remaining st)"
proof (induction as st arbitrary: st' rule: run.induct)
  case (1 st)
  then show ?case by auto
next
  case (2 p lo hi as st)
  from 2(2) obtain n where n: "n \<in> set (rev [lo..<Suc (run_length p hi (remaining st))])"
    and r: "run as (advance n st) = Some st'"
    unfolding run.simps by (blast dest: first_some_SomeD)
  from 2(1) [OF n r] advance_seen [of n st] show ?case by blast
next
  case (3 as st)
  then show ?case by (auto split: if_splits)
next
  case (4 as st)
  then show ?case by (auto split: if_splits)
next
  case (5 as st)
  then show ?case by (auto split: if_splits)
next
  case (6 as st)
  from 6(2) have "run as (st\<lparr>cur := Some []\<rparr>) = Some st'" by simp
  from 6(1) [OF this] show ?case by (auto simp: seen_def)
next
  case (7 as st)
  let ?st = "st\<lparr>caps := caps st @ [case cur st of None \<Rightarrow> [] | Some acc \<Rightarrow> acc], cur := None\<rparr>"
  from 7(2) have "run as ?st = Some st'" by simp
  from 7(1) [OF this] have "seen st' \<subseteq> seen ?st \<union> set (remaining st)" by simp
  moreover have "seen ?st \<subseteq> seen st"
    by (cases "cur st") (auto simp: seen_def)
  ultimately show ?case by blast
next
  case (8 alts as st)
  from 8(2) obtain a where a: "a \<in> set alts" and r: "run (map It a @ as) st = Some st'"
    unfolding run.simps by (blast dest: first_some_SomeD)
  from 8(1) [OF a r] show ?case .
qed

definition tmpl_chars :: "rpart list \<Rightarrow> jschar set" where
  "tmpl_chars t = (\<Union>r\<in>set t. case r of Lit s \<Rightarrow> set s | Ref n \<Rightarrow> {0x24, 0x30 + n})"

lemma expand_chars: "set (expand t cs) \<subseteq> tmpl_chars t \<union> \<Union> (set ` set cs)"
proof (induction t)
  case Nil
  show ?case by (simp add: expand_def)
next
  case (Cons r t)
  have e: "expand (r # t) cs = expand [r] cs @ expand t cs"
    by (simp add: expand_def)
  have c: "tmpl_chars (r # t) = tmpl_chars [r] \<union> tmpl_chars t"
    by (simp add: tmpl_chars_def)
  have "set (expand [r] cs) \<subseteq> tmpl_chars [r] \<union> \<Union> (set ` set cs)"
  proof (cases r)
    case (Lit s)
    then show ?thesis by (simp add: expand_def tmpl_chars_def)
  next
    case (Ref n)
    show ?thesis
    proof (cases "0 < n \<and> n \<le> length cs")
      case True
      then have "n - 1 < length cs" by arith
      then have "cs ! (n - 1) \<in> set cs" by (rule nth_mem)
      then have "set (cs ! (n - 1)) \<subseteq> \<Union> (set ` set cs)" by blast
      with True show ?thesis by (auto simp: expand_def Ref)
    next
      case False
      then show ?thesis by (auto simp: expand_def tmpl_chars_def Ref)
    qed
  qed
  with Cons show ?case unfolding e c by auto
qed

lemma run_caps_chars:
  assumes "run as (init_state p s) = Some st"
  shows "\<Union> (set ` set (caps st)) \<subseteq> set s"
  using run_seen [OF assms] by (auto simp: seen_def init_state_def)

lemma greplace_chars: "set (greplace as t p skip s) \<subseteq> set s \<union> tmpl_chars t"
proof (induction s arbitrary: p skip)
  case Nil
  show ?case
  proof (cases "run as (init_state p [])")
    case None
    then show ?thesis by simp
  next
    case (Some st)
    have "\<Union> (set ` set (caps st)) \<subseteq> {}"
      using run_caps_chars [OF Some] by simp
    then have "set (expand t (caps st)) \<subseteq> tmpl_chars t"
      using expand_chars [of t "caps st"] by blast
    with Some show ?thesis by auto
  qed
next
  case (Cons c s)
  show ?case
  proof (cases "0 < skip")
    case True
    then show ?thesis using Cons [of "Some c" "skip - 1"] by auto
  next
    case False
    show ?thesis
    proof (cases "run as (init_state p (c # s))")
      case None
      then show ?thesis using False Cons [of "Some c" 0] by auto
    next
      case (Some st)
      have "set (expand t (caps st)) \<subseteq> set (c # s) \<union> tmpl_chars t"
        using expand_chars [of t "caps st"] run_caps_chars [OF Some] by blast
      then show ?thesis
        using False Some Cons [of "Some c" 0] Cons [of "Some c" "consumed st - 1"]
        by (auto split: if_splits)
    qed
  qed
qed

text \<open>
  Replacing each run of white space by \<open>x\<close>, as a function on the string; \<open>b\<close> tells
  that the code unit before was white space.
\<close>

fun squeeze :: "jsstring \<Rightarrow> bool \<Rightarrow> jsstring \<Rightarrow> jsstring" where
  "squeeze x b [] = []"
| "squeeze x b (c # cs) =
     (if is_space c then (if b then squeeze x True cs else x @ squeeze x True cs)
      else c # squeeze x False cs)"

lemma run_SPACES:
  "run SPACES (init_state p s) =
     (if takeWhile is_space s = [] then None
      else Some (advance (length (takeWhile is_space s)) (init_state p s)))"
proof (cases "takeWhile is_space s = []")
  case True
  then show ?thesis
    by (simp add: SPACES_def seq_def plus_of_def run_length_def init_state_def)
next
  case False
  then obtain k where k: "length (takeWhile is_space s) = Suc k"
    by (cases "takeWhile is_space s") auto
  have "rev [1..<Suc (Suc k)] = Suc k # rev [1..<Suc k]"
    by simp
  then show ?thesis
    using False
    by (simp add: SPACES_def seq_def plus_of_def run_length_def init_state_def k
        del: upt_Suc)
qed

lemma advance_init:
  "consumed (advance n (init_state p s)) = n" "caps (advance n (init_state p s)) = []"
  by (simp_all add: advance_def init_state_def Let_def)

lemma greplace_SPACES:
  "greplace SPACES [Lit x] p 0 s = squeeze x False s \<and>
   (skip = length (takeWhile is_space s) \<longrightarrow> greplace SPACES [Lit x] p skip s = squeeze x True s)"
proof (induction s arbitrary: p skip)
  case Nil
  show ?case by (simp add: run_SPACES)
next
  case (Cons c s)
  have e: "expand [Lit x] cs = x" for cs
    by (simp add: expand_def)
  have zero: "greplace SPACES [Lit x] p 0 (c # s) = squeeze x False (c # s)"
  proof (cases "is_space c")
    case True
    then show ?thesis
      using Cons [of "Some c" "length (takeWhile is_space s)"]
      by (simp add: run_SPACES e advance_init)
  next
    case False
    then show ?thesis
      using Cons [of "Some c" 0] by (simp add: run_SPACES)
  qed
  have "greplace SPACES [Lit x] p skip (c # s) = squeeze x True (c # s)"
    if "skip = length (takeWhile is_space (c # s))"
  proof (cases "is_space c")
    case True
    with that show ?thesis
      using Cons [of "Some c" "length (takeWhile is_space s)"] by simp
  next
    case False
    with that have "skip = 0" by simp
    with zero False show ?thesis by simp
  qed
  with zero show ?case by blast
qed

lemma replace_all_SPACES: "replace_all SPACES [Lit x] s = squeeze x False s"
  using greplace_SPACES [of x None s 0] by (simp add: replace_all_def)

text \<open>
  A string whose only white space is single U+0020 code units, none after another.
\<close>

fun tidy :: "bool \<Rightarrow> jsstring \<Rightarrow> bool" where
  "tidy b [] = True"
| "tidy b (c # cs) = (if is_space c then c = 0x20 \<and> \<not> b \<and> tidy True cs else tidy False cs)"

lemma tidy_squeeze: "tidy b (squeeze [0x20] b s)"
  by (induction s arbitrary: b) (simp_all add: is_space_def in_range_def)

lemma tidy_weaken: "tidy True s \<Longrightarrow> tidy False s"
  by (cases s) (simp_all split: if_splits)

lemma squeeze_tidy:
  "(tidy False s \<longrightarrow> squeeze [0x20] False s = s) \<and> (tidy True s \<longrightarrow> squeeze [0x20] True s = s)"
  by (induction s) (auto split: if_splits)

lemma tidy_suffix: "tidy b (xs @ ys) \<Longrightarrow> tidy False ys"
proof (induction xs arbitrary: b)
  case Nil
  then show ?case by (cases b) (simp_all add: tidy_weaken)
next
  case (Cons x xs)
  then show ?case by (auto split: if_splits)
qed

lemma tidy_prefix: "tidy b (xs @ ys) \<Longrightarrow> tidy b xs"
  by (induction xs arbitrary: b) (auto split: if_splits)

lemma tidy_trim: "tidy False s \<Longrightarrow> tidy False (trim s)"
proof -
  assume s: "tidy False s"
  let ?w = "dropWhile is_space s"
  have "s = takeWhile is_space s @ ?w" by simp
  with s have w: "tidy False ?w" by (metis tidy_suffix)
  have "rev ?w = takeWhile is_space (rev ?w) @ dropWhile is_space (rev ?w)" by simp
  then have "?w = rev (dropWhile is_space (rev ?w)) @ rev (takeWhile is_space (rev ?w))"
    by (metis rev_append rev_rev_ident)
  with w have "tidy False (rev (dropWhile is_space (rev ?w)))"
    by (metis tidy_prefix)
  then show ?thesis by (simp add: trim_def)
qed

lemma trim_idem: "trim (trim s) = trim s"
proof -
  define w where "w = dropWhile is_space s"
  define u where "u = dropWhile is_space (rev w)"
  have t: "trim s = rev u"
    by (simp add: trim_def u_def w_def)
  have 1: "dropWhile is_space (rev u) = rev u"
  proof (cases "u = []")
    case True
    then show ?thesis by simp
  next
    case False
    then have w: "w \<noteq> []" by (auto simp: u_def)
    have "rev w = takeWhile is_space (rev w) @ u" by (simp add: u_def)
    with False have "last u = last (rev w)"
      by (metis last_appendR)
    also have "\<dots> = hd w"
      using w by (simp add: last_rev)
    finally have "hd (rev u) = hd w"
      using False by (simp add: hd_rev)
    moreover have "\<not> is_space (hd w)"
      using w unfolding w_def by (rule hd_dropWhile)
    ultimately show ?thesis
      by (simp add: dropWhile_eq_self_iff)
  qed
  have 2: "dropWhile is_space u = u"
    by (simp add: u_def)
  have "trim (rev u) = rev (dropWhile is_space (rev (dropWhile is_space (rev u))))"
    by (simp add: trim_def)
  also have "\<dots> = rev u"
    unfolding 1 by (simp add: 2)
  finally show ?thesis by (simp add: t)
qed

lemma space_step_idem: "space_step (space_step r) = space_step r"
proof -
  let ?y = "squeeze [0x20] False r"
  have sp: "js '' '' = [0x20]" by (simp add: js_def)
  have "tidy False (trim ?y)"
    by (intro tidy_trim tidy_squeeze)
  then have "squeeze [0x20] False (trim ?y) = trim ?y"
    using squeeze_tidy by blast
  then show ?thesis
    by (simp add: space_step_def replace_all_SPACES sp trim_idem)
qed

lemma space_step_chars: "x \<in> set (space_step r) \<Longrightarrow> x = 0x20 \<or> (x \<in> set r \<and> \<not> is_space x)"
proof -
  have sq: "x \<in> set (squeeze [0x20] b s) \<Longrightarrow> x = 0x20 \<or> (x \<in> set s \<and> \<not> is_space x)" for b s
    by (induction s arbitrary: b) (auto split: if_splits)
  have tr: "set (trim s) \<subseteq> set s" for s
    by (auto simp: trim_def dest!: set_dropWhileD)
  assume "x \<in> set (space_step r)"
  then have "x \<in> set (squeeze [0x20] False r)"
    using tr by (auto simp: space_step_def replace_all_SPACES js_def)
  then show ?thesis by (rule sq)
qed

lemma fold_replace_chars:
  "set (fold (\<lambda>(from, to) r. replace_all from to r) tbl r) \<subseteq>
     set r \<union> (\<Union>e\<in>set tbl. tmpl_chars (snd e))"
proof (induction tbl arbitrary: r)
  case Nil
  show ?case by simp
next
  case (Cons e tbl)
  obtain f t where e: "e = (f, t)" by (cases e)
  have "set (replace_all f t r) \<subseteq> set r \<union> tmpl_chars t"
    unfolding replace_all_def by (rule greplace_chars)
  with Cons [of "replace_all f t r"] show ?case
    by (auto simp: e)
qed

lemma variation_chars:
  "x \<in> (\<Union>e\<in>set ANIME_TITLE_VARIATIONS. tmpl_chars (snd e)) \<Longrightarrow> in_range 0x24 0x7A x"
  by (auto simp: ANIME_TITLE_VARIATIONS_def tmpl_chars_def js_def in_range_def)

lemma table_chars:
  "x \<in> fst ` set CHARACTER_NORMALIZATIONS \<Longrightarrow> \<not> in_range 0x24 0x7A x \<and> x \<noteq> 0x20"
  by (auto simp: CHARACTER_NORMALIZATIONS_def in_range_def)

lemma normalize_clean: "set (normalize s) \<inter> fst ` set CHARACTER_NORMALIZATIONS = {}"
proof -
  have "x \<notin> fst ` set CHARACTER_NORMALIZATIONS" if x: "x \<in> set (normalize s)" for x
  proof -
    let ?r1 = "character_step (trim (toLowerCase s))"
    from x have "x = 0x20 \<or> x \<in> set (variation_step ?r1)"
      unfolding normalize_steps by (blast dest: space_step_chars)
    then consider "x = 0x20" | "x \<in> set ?r1"
      | "x \<in> (\<Union>e\<in>set ANIME_TITLE_VARIATIONS. tmpl_chars (snd e))"
      using fold_replace_chars [of ANIME_TITLE_VARIATIONS ?r1]
      unfolding variation_step_def by blast
    then show ?thesis
    proof cases
      case 1
      then show ?thesis using table_chars by blast
    next
      case 2
      then show ?thesis by (rule character_step_clean)
    next
      case 3
      then show ?thesis using table_chars variation_chars by blast
    qed
  qed
  then show ?thesis by blast
qed

lemma normalize_ou: "normalize (js ''ouu'') = js ''ou''" "normalize (js ''ou'') = js ''o''"
  by (simp_all add: normalize_def CHARACTER_NORMALIZATIONS_def ANIME_TITLE_VARIATIONS_def
      pattern_defs regex_eval string_eval class_eval)

text \<open>
  C1, as the spec states it: \<open>normalize\<close> is idempotent. \<open>"ouu"\<close> normalizes to
  \<open>"ou"\<close>, which normalizes to \<open>"o"\<close>.
\<close>

theorem normalize_idempotent_counterexample:
  "normalize (normalize (js ''ouu'')) \<noteq> normalize (js ''ouu'')"
  by (simp add: normalize_ou) (simp add: js_def)

text \<open>
  C1, amended. The result of \<open>normalize\<close> is unchanged by trimming, by the character
  table and by the white-space step; so \<open>normalize (normalize s) = normalize s\<close>
  whenever the result is also unchanged by lower-casing and by the title-variation
  substitutions.
\<close>

theorem normalize_stable_steps:
  "trim (normalize s) = normalize s \<and>
   character_step (normalize s) = normalize s \<and>
   space_step (normalize s) = normalize s \<and>
   (toLowerCase (normalize s) = normalize s \<and> variation_step (normalize s) = normalize s \<longrightarrow>
      normalize (normalize s) = normalize s)"
proof (intro conjI impI)
  show t: "trim (normalize s) = normalize s"
    unfolding normalize_steps space_step_def by (rule trim_idem)
  show c: "character_step (normalize s) = normalize s"
    using normalize_clean by (rule character_step_id)
  show w: "space_step (normalize s) = normalize s"
    unfolding normalize_steps by (rule space_step_idem)
  assume "toLowerCase (normalize s) = normalize s \<and> variation_step (normalize s) = normalize s"
  then show "normalize (normalize s) = normalize s"
    using t c w by (simp add: normalize_steps [of "normalize s"])
qed

lemma normalize_naruto:
  "normalize (js ''Naruto'') = js ''naruto''"
  "toLowerCase (js ''naruto'') = js ''naruto''"
  "variation_step (js ''naruto'') = js ''naruto''"
  by (simp_all add: normalize_def variation_step_def CHARACTER_NORMALIZATIONS_def
      ANIME_TITLE_VARIATIONS_def pattern_defs regex_eval string_eval class_eval)

theorem normalize_stable_steps_witness:
  "normalize (normalize (js ''Naruto'')) = js ''naruto''"
  using normalize_stable_steps [of "js ''Naruto''"] normalize_naruto
  by simp

end
